theory Spec2Isabelle
  imports Main "HOL-Library.Word"
begin

unbundle bit_operations_syntax

section \<open>The PFAC multi-pattern matcher (util-mpm-pfac.c)\<close>

text \<open>
  A shallow embedding of the pattern store, the goto/delta table construction and the scan
  loop of \<^verbatim>\<open>util-mpm-pfac.c\<close>.  Arrays are total functions from an index to a cell,
  with the element count kept beside them as the code does; linked lists and
  counted arrays that only grow are lists.  \<^verbatim>\<open>exit()\<close> calls and reads outside an
  array are error values.  Allocation failures and the \<^verbatim>\<open>memory_cnt\<close> /
  \<^verbatim>\<open>memory_size\<close> bookkeeping are not modelled.
\<close>

type_synonym byte = "8 word"

datatype pfac_error =
    QueueFull          \<comment> \<open>\<^verbatim>\<open>exit()\<close> in SCPFACEnqueue\<close>
  | QueueEmpty         \<comment> \<open>\<^verbatim>\<open>exit()\<close> in SCPFACDequeue\<close>
  | ParrayOverrun      \<comment> \<open>the hash holds a number of patterns other than \<^verbatim>\<open>pattern_cnt\<close>\<close>
  | NullDeref          \<comment> \<open>a read through a NULL table or pattern pointer\<close>
  | ReadBeforeBuffer   \<comment> \<open>a read at a negative offset of the scanned buffer\<close>

subsection \<open>Constants and helpers declared outside the file\<close>

definition SC_PFAC_FAIL :: int where
  "SC_PFAC_FAIL = - 1"

definition INIT_HASH_SIZE :: nat where
  "INIT_HASH_SIZE = 65536"

definition STATE_QUEUE_CONTAINER_SIZE :: nat where
  "STATE_QUEUE_CONTAINER_SIZE = 65536"

text \<open>Modelled from the spec: the flag bit \<^verbatim>\<open>MPM_PATTERN_FLAG_NOCASE\<close> is declared in
  \<^verbatim>\<open>util-mpm.h\<close>, which is not part of the source tree; the spec only names it (NOCASE).
  Its value is taken as the lowest bit.\<close>

definition MPM_PATTERN_FLAG_NOCASE :: byte where
  "MPM_PATTERN_FLAG_NOCASE = 0x01"

text \<open>Modelled from the spec: \<^verbatim>\<open>u8_tolower\<close> is a macro of an absent header.  The spec
  fixes the fold as ASCII only: bytes 0x41..0x5A map to 0x61..0x7A, every other byte is
  unchanged.\<close>

definition u8_tolower :: "byte \<Rightarrow> byte" where
  "u8_tolower c = (if 0x41 \<le> c \<and> c \<le> 0x5A then c + 0x20 else c)"

text \<open>Modelled from the spec: \<^verbatim>\<open>memcpy_tolower\<close> (absent header) copies a byte string
  through \<^verbatim>\<open>u8_tolower\<close>.\<close>

definition memcpy_tolower :: "byte list \<Rightarrow> byte list" where
  "memcpy_tolower pat = map u8_tolower pat"

text \<open>Modelled from the spec: \<^verbatim>\<open>SCMemcmp\<close> (absent header) compares the first
  \<open>len\<close> bytes of two byte strings and returns 0 exactly when they are equal.\<close>

definition SCMemcmp :: "byte list \<Rightarrow> byte list \<Rightarrow> nat \<Rightarrow> int" where
  "SCMemcmp s1 s2 len = (if take len s1 = take len s2 then 0 else 1)"

subsection \<open>Data\<close>

text \<open>A pattern as \<^verbatim>\<open>SCPFACPattern\<close> holds it; the \<^verbatim>\<open>next\<close> pointer is the position
  in the chain list of its hash bucket.\<close>

record SCPFACPattern =
  len :: nat
  flags :: byte
  id' :: "32 word"
  original_pat :: "byte list"
  ci :: "byte list"
  cs :: "byte list"

text \<open>An entry of \<^verbatim>\<open>pid_pat_list\<close>: the case-sensitive bytes (NULL for a NOCASE
  pattern) and their length.\<close>

record SCPFACPatternList =
  pl_cs :: "byte list option"
  patlen :: nat

text \<open>\<^verbatim>\<open>SCPFACCtx\<close>.  \<^verbatim>\<open>init_hash\<close> is \<open>None\<close> when the pointer is NULL; each bucket
  is its chain in link order.  The state tables are \<open>None\<close> while they are NULL.
  \<^verbatim>\<open>output_table[s]\<close> is the \<^verbatim>\<open>pids\<close> array of state \<open>s\<close>, its length being
  \<^verbatim>\<open>no_of_entries\<close>.\<close>

record SCPFACCtx =
  init_hash :: "(nat \<Rightarrow> SCPFACPattern list) option"
  parray :: "SCPFACPattern list"
  state_count :: int
  state_table_u16 :: "(int \<Rightarrow> byte \<Rightarrow> 16 word) option"
  state_table_u32 :: "(int \<Rightarrow> byte \<Rightarrow> 32 word) option"
  goto_table :: "int \<Rightarrow> byte \<Rightarrow> int"
  failure_table :: "int \<Rightarrow> int"
  output_table :: "int \<Rightarrow> 32 word list"
  pid_pat_list :: "nat \<Rightarrow> SCPFACPatternList"
  max_pat_id :: "32 word"

text \<open>The fields of \<^verbatim>\<open>MpmCtx\<close> the file uses.\<close>

record MpmCtx =
  ctx :: SCPFACCtx
  pattern_cnt :: nat
  minlen :: nat
  maxlen :: nat

text \<open>\<^verbatim>\<open>SCPFACInitCtx\<close>: a zeroed context with an allocated, empty hash.\<close>

definition SCPFACInitCtx :: MpmCtx where
  "SCPFACInitCtx =
     \<lparr>ctx = \<lparr>init_hash = Some (\<lambda>_. []), parray = [], state_count = 0,
              state_table_u16 = None, state_table_u32 = None,
              goto_table = (\<lambda>_ _. 0), failure_table = (\<lambda>_. 0),
              output_table = (\<lambda>_. []), pid_pat_list = (\<lambda>_. \<lparr>pl_cs = None, patlen = 0\<rparr>),
              max_pat_id = 0\<rparr>,
      pattern_cnt = 0, minlen = 0, maxlen = 0\<rparr>"

subsection \<open>Pattern store\<close>

text \<open>\<^verbatim>\<open>SCPFACInitHashRaw\<close> / \<^verbatim>\<open>SCPFACInitHash\<close>:
  \<^verbatim>\<open>hash = patlen * pat[0]; if (patlen > 1) hash += pat[1]; return hash % INIT_HASH_SIZE\<close>.
  The length of the list is \<^verbatim>\<open>patlen\<close>.\<close>

definition SCPFACInitHashRaw :: "byte list \<Rightarrow> nat" where
  "SCPFACInitHashRaw pat =
     (case pat of
        [] \<Rightarrow> 0
      | c # rest \<Rightarrow>
          (length pat * unat c + (case rest of [] \<Rightarrow> 0 | d # _ \<Rightarrow> unat d)) mod INIT_HASH_SIZE)"

definition SCPFACInitHash :: "SCPFACPattern \<Rightarrow> nat" where
  "SCPFACInitHash p = SCPFACInitHashRaw (original_pat p)"

text \<open>\<^verbatim>\<open>SCPFACInitHashLookup\<close>: walk the chain of the pattern's bucket and return the first
  entry whose id is \<open>pid\<close>.\<close>

definition SCPFACInitHashLookup ::
  "SCPFACCtx \<Rightarrow> byte list \<Rightarrow> byte \<Rightarrow> 32 word \<Rightarrow> SCPFACPattern option" where
  "SCPFACInitHashLookup c pat fl pid =
     (case init_hash c of
        None \<Rightarrow> None
      | Some h \<Rightarrow> find (\<lambda>t. id' t = pid) (h (SCPFACInitHashRaw pat)))"

text \<open>\<^verbatim>\<open>SCPFACInitHashAdd\<close>: append to the tail of the bucket's chain.\<close>

definition SCPFACInitHashAdd :: "SCPFACCtx \<Rightarrow> SCPFACPattern \<Rightarrow> SCPFACCtx" where
  "SCPFACInitHashAdd c p =
     (case init_hash c of
        None \<Rightarrow> c
      | Some h \<Rightarrow> c\<lparr>init_hash := Some (h(SCPFACInitHash p := h (SCPFACInitHash p) @ [p]))\<rparr>)"

text \<open>\<^verbatim>\<open>SCPFACAddPattern\<close>.  The result is the return value and the context.\<close>

definition SCPFACAddPattern ::
  "MpmCtx \<Rightarrow> byte list \<Rightarrow> nat \<Rightarrow> nat \<Rightarrow> 32 word \<Rightarrow> 32 word \<Rightarrow> byte \<Rightarrow> int \<times> MpmCtx" where
  "SCPFACAddPattern mpm_ctx pat offset depth pid sid fl =
     (let patlen = length pat in
      if patlen = 0 then (0, mpm_ctx)
      else
        (case SCPFACInitHashLookup (ctx mpm_ctx) pat fl pid of
           Some p \<Rightarrow> (0, mpm_ctx)
         | None \<Rightarrow>
             (let lowered = memcpy_tolower pat;
                  p = \<lparr>len = patlen, flags = fl, id' = pid, original_pat = pat, ci = lowered,
                       cs = (if fl AND MPM_PATTERN_FLAG_NOCASE \<noteq> 0 then lowered
                             else if lowered = pat then lowered else pat)\<rparr>;
                  c1 = SCPFACInitHashAdd (ctx mpm_ctx) p;
                  c2 = (if pid > max_pat_id c1 then c1\<lparr>max_pat_id := pid\<rparr> else c1)
              in (0, mpm_ctx\<lparr>ctx := c2,
                             pattern_cnt := pattern_cnt mpm_ctx + 1,
                             maxlen := (if maxlen mpm_ctx < patlen then patlen else maxlen mpm_ctx),
                             minlen := (if minlen mpm_ctx = 0 then patlen
                                        else if minlen mpm_ctx > patlen then patlen
                                        else minlen mpm_ctx)\<rparr>))))"

definition SCPFACAddPatternCI ::
  "MpmCtx \<Rightarrow> byte list \<Rightarrow> nat \<Rightarrow> nat \<Rightarrow> 32 word \<Rightarrow> 32 word \<Rightarrow> byte \<Rightarrow> int \<times> MpmCtx" where
  "SCPFACAddPatternCI mpm_ctx pat offset depth pid sid fl =
     SCPFACAddPattern mpm_ctx pat offset depth pid sid (fl OR MPM_PATTERN_FLAG_NOCASE)"

definition SCPFACAddPatternCS ::
  "MpmCtx \<Rightarrow> byte list \<Rightarrow> nat \<Rightarrow> nat \<Rightarrow> 32 word \<Rightarrow> 32 word \<Rightarrow> byte \<Rightarrow> int \<times> MpmCtx" where
  "SCPFACAddPatternCS mpm_ctx pat offset depth pid sid fl =
     SCPFACAddPattern mpm_ctx pat offset depth pid sid fl"

subsection \<open>Goto table\<close>

text \<open>The loop variable \<^verbatim>\<open>ascii_code\<close> of the 256-way loops, in loop order.\<close>

definition ascii_codes :: "byte list" where
  "ascii_codes = map of_nat [0..<256]"

text \<open>\<^verbatim>\<open>SCPFACInitNewState\<close>: the new state's goto row is all FAIL and its output list is
  empty; the earlier rows are kept by the reallocation.  Returns the new state's id.\<close>

definition SCPFACInitNewState :: "SCPFACCtx \<Rightarrow> int \<times> SCPFACCtx" where
  "SCPFACInitNewState c =
     (state_count c,
      c\<lparr>goto_table := (goto_table c)(state_count c := (\<lambda>_. SC_PFAC_FAIL)),
        output_table := (output_table c)(state_count c := []),
        state_count := state_count c + 1\<rparr>)"

text \<open>\<^verbatim>\<open>SCPFACSetOutputState\<close>: append \<open>pid\<close> unless the list already holds it.\<close>

definition SCPFACSetOutputState :: "int \<Rightarrow> 32 word \<Rightarrow> SCPFACCtx \<Rightarrow> SCPFACCtx" where
  "SCPFACSetOutputState state pid c =
     (if pid \<in> set (output_table c state) then c
      else c\<lparr>output_table := (output_table c)(state := output_table c state @ [pid])\<rparr>)"

text \<open>First loop of \<^verbatim>\<open>SCPFACEnter\<close>: follow existing transitions; the result is the state
  reached and the part of the pattern not yet in the trie.\<close>

fun enter_walk :: "(int \<Rightarrow> byte \<Rightarrow> int) \<Rightarrow> int \<Rightarrow> byte list \<Rightarrow> int \<times> byte list" where
  "enter_walk g state [] = (state, [])"
| "enter_walk g state (b # bs) =
     (if g state b \<noteq> SC_PFAC_FAIL then enter_walk g (g state b) bs else (state, b # bs))"

text \<open>Second loop of \<^verbatim>\<open>SCPFACEnter\<close>: one new state per remaining byte.\<close>

fun enter_extend :: "SCPFACCtx \<Rightarrow> int \<Rightarrow> byte list \<Rightarrow> int \<times> SCPFACCtx" where
  "enter_extend c state [] = (state, c)"
| "enter_extend c state (b # bs) =
     (let (newstate, c1) = SCPFACInitNewState c;
          c2 = c1\<lparr>goto_table := (goto_table c1)(state := (goto_table c1 state)(b := newstate))\<rparr>
      in enter_extend c2 newstate bs)"

definition SCPFACEnter :: "byte list \<Rightarrow> 32 word \<Rightarrow> SCPFACCtx \<Rightarrow> SCPFACCtx" where
  "SCPFACEnter pattern pid c =
     (let (state, rest) = enter_walk (goto_table c) 0 pattern;
          (state', c') = enter_extend c state rest
      in SCPFACSetOutputState state' pid c')"

text \<open>\<^verbatim>\<open>SCPFACCreateGotoTable\<close>: enter the first \<^verbatim>\<open>pattern_cnt\<close> patterns of the pattern
  array, then turn every FAIL of row 0 into a transition to state 0.\<close>

definition SCPFACCreateGotoTable :: "nat \<Rightarrow> SCPFACCtx \<Rightarrow> SCPFACCtx" where
  "SCPFACCreateGotoTable cnt c =
     (let c1 = fold (\<lambda>p. SCPFACEnter (take (len p) (ci p)) (id' p)) (take cnt (parray c)) c
      in fold (\<lambda>a c'. if goto_table c' 0 a = SC_PFAC_FAIL
                       then c'\<lparr>goto_table := (goto_table c')(0 := (goto_table c' 0)(a := 0))\<rparr>
                       else c')
              ascii_codes c1)"

text \<open>\<^verbatim>\<open>SCPFACDetermineLevel1Gap\<close>: mark the first folded byte of every pattern, then give
  each marked byte a child of state 0, in byte order.\<close>

definition SCPFACDetermineLevel1Gap :: "nat \<Rightarrow> SCPFACCtx \<Rightarrow> SCPFACCtx" where
  "SCPFACDetermineLevel1Gap cnt c =
     (let m = fold (\<lambda>p m. case ci p of [] \<Rightarrow> m | b # _ \<Rightarrow> m(b := True))
                   (take cnt (parray c)) (\<lambda>_. False)
      in fold (\<lambda>u c'. if \<not> m u then c'
                       else (let (newstate, c1) = SCPFACInitNewState c'
                             in c1\<lparr>goto_table :=
                                     (goto_table c1)(0 := (goto_table c1 0)(u := newstate))\<rparr>))
              ascii_codes c)"

subsection \<open>The state queue\<close>

record StateQueue =
  store :: "nat \<Rightarrow> int"
  top' :: nat
  bot' :: nat

definition empty_queue :: StateQueue where
  "empty_queue = \<lparr>store = (\<lambda>_. 0), top' = 0, bot' = 0\<rparr>"

definition SCPFACStateQueueIsEmpty :: "StateQueue \<Rightarrow> bool" where
  "SCPFACStateQueueIsEmpty q = (top' q = bot' q)"

definition SCPFACEnqueue :: "StateQueue \<Rightarrow> int \<Rightarrow> pfac_error + StateQueue" where
  "SCPFACEnqueue q state =
     (if list_ex (\<lambda>i. store q i = state) [bot' q..<top' q] then Inr q
      else (let q1 = q\<lparr>store := (store q)(top' q := state), top' := top' q + 1\<rparr>;
                q2 = (if top' q1 = STATE_QUEUE_CONTAINER_SIZE then q1\<lparr>top' := 0\<rparr> else q1)
            in if top' q2 = bot' q2 then Inl QueueFull else Inr q2))"

definition SCPFACDequeue :: "StateQueue \<Rightarrow> pfac_error + (int \<times> StateQueue)" where
  "SCPFACDequeue q =
     (let q1 = (if bot' q = STATE_QUEUE_CONTAINER_SIZE then q\<lparr>bot' := 0\<rparr> else q)
      in if bot' q1 = top' q1 then Inl QueueEmpty
         else Inr (store q1 (bot' q1), q1\<lparr>bot' := bot' q1 + 1\<rparr>))"

subsection \<open>Delta table\<close>

text \<open>\<^verbatim>\<open>SCPFACCreateDeltaTable\<close> holds the same block twice, once with 16-bit cells and once
  with 32-bit cells; the block is modelled once, for any cell width.  In both the
  assignment in the FAIL branch is commented out, so such a cell keeps the 0 of the
  \<^verbatim>\<open>memset\<close>.\<close>

type_synonym 'a state_table = "int \<Rightarrow> byte \<Rightarrow> 'a word"

text \<open>The loop over row 0: the goto value is first narrowed to the cell type.\<close>

fun delta_root ::
  "(int \<Rightarrow> byte \<Rightarrow> int) \<Rightarrow> byte list \<Rightarrow> StateQueue \<times> 'a::len state_table
     \<Rightarrow> pfac_error + StateQueue \<times> 'a state_table" where
  "delta_root g [] qt = Inr qt"
| "delta_root g (a # as) qt =
     (let temp_state = (word_of_int (g 0 a) :: 'a word);
          t1 = (snd qt)(0 := (snd qt 0)(a := temp_state))
      in if temp_state \<noteq> 0
         then (case SCPFACEnqueue (fst qt) (uint temp_state) of
                 Inl e \<Rightarrow> Inl e
               | Inr q1 \<Rightarrow> delta_root g as (q1, t1))
         else delta_root g as (fst qt, t1))"

text \<open>The loop over the row of a dequeued state.\<close>

fun delta_row ::
  "(int \<Rightarrow> byte \<Rightarrow> int) \<Rightarrow> int \<Rightarrow> byte list \<Rightarrow> StateQueue \<times> 'a::len state_table
     \<Rightarrow> pfac_error + StateQueue \<times> 'a state_table" where
  "delta_row g r_state [] qt = Inr qt"
| "delta_row g r_state (a # as) qt =
     (let temp_state = g r_state a
      in if temp_state \<noteq> SC_PFAC_FAIL
         then (case SCPFACEnqueue (fst qt) temp_state of
                 Inl e \<Rightarrow> Inl e
               | Inr q1 \<Rightarrow>
                   delta_row g r_state as
                     (q1, (snd qt)(r_state := (snd qt r_state)(a := word_of_int temp_state))))
         else delta_row g r_state as qt)"

text \<open>The \<^verbatim>\<open>while (!SCPFACStateQueueIsEmpty(&q))\<close> loop; \<open>None\<close> when it does not end.\<close>

partial_function (option) delta_bfs ::
  "(int \<Rightarrow> byte \<Rightarrow> int) \<Rightarrow> StateQueue \<times> 'a::len state_table
     \<Rightarrow> (pfac_error + 'a state_table) option" where
  "delta_bfs g qt =
     (if SCPFACStateQueueIsEmpty (fst qt) then Some (Inr (snd qt))
      else (case SCPFACDequeue (fst qt) of
              Inl e \<Rightarrow> Some (Inl e)
            | Inr rq \<Rightarrow>
                (case delta_row g (fst rq) ascii_codes (snd rq, snd qt) of
                   Inl e \<Rightarrow> Some (Inl e)
                 | Inr qt' \<Rightarrow> delta_bfs g qt')))"

definition delta_table :: "(int \<Rightarrow> byte \<Rightarrow> int) \<Rightarrow> (pfac_error + 'a::len state_table) option" where
  "delta_table g =
     (case delta_root g ascii_codes (empty_queue, (\<lambda>_ _. 0)) of
        Inl e \<Rightarrow> Some (Inl e)
      | Inr qt \<Rightarrow> delta_bfs g qt)"

text \<open>The two blocks of \<^verbatim>\<open>SCPFACCreateDeltaTable\<close>, one after the other.  \<open>both\<close> is the
  file-level flag \<^verbatim>\<open>construct_both_16_and_32_state_tables\<close>.\<close>

definition create_delta_u16 :: "bool \<Rightarrow> SCPFACCtx \<Rightarrow> (pfac_error + SCPFACCtx) option" where
  "create_delta_u16 both c =
     (if state_count c < 32767 \<or> both
      then (case delta_table (goto_table c) of
              None \<Rightarrow> None
            | Some (Inl e) \<Rightarrow> Some (Inl e)
            | Some (Inr t) \<Rightarrow> Some (Inr (c\<lparr>state_table_u16 := Some t\<rparr>)))
      else Some (Inr c))"

definition create_delta_u32 :: "bool \<Rightarrow> SCPFACCtx \<Rightarrow> (pfac_error + SCPFACCtx) option" where
  "create_delta_u32 both c =
     (if \<not> state_count c < 32767 \<or> both
      then (case delta_table (goto_table c) of
              None \<Rightarrow> None
            | Some (Inl e) \<Rightarrow> Some (Inl e)
            | Some (Inr t) \<Rightarrow> Some (Inr (c\<lparr>state_table_u32 := Some t\<rparr>)))
      else Some (Inr c))"

definition SCPFACCreateDeltaTable :: "bool \<Rightarrow> SCPFACCtx \<Rightarrow> (pfac_error + SCPFACCtx) option" where
  "SCPFACCreateDeltaTable both c =
     (case create_delta_u16 both c of
        None \<Rightarrow> None
      | Some (Inl e) \<Rightarrow> Some (Inl e)
      | Some (Inr c1) \<Rightarrow> create_delta_u32 both c1)"

subsection \<open>Output presence bits and verify bits\<close>

text \<open>One width of \<^verbatim>\<open>SCPFACClubOutputStatePresenceWithDeltaTable\<close>: \<open>m\<close> is the state
  mask and \<open>hi\<close> the presence bit of that width.\<close>

definition club_presence ::
  "int \<Rightarrow> 'a::len word \<Rightarrow> (int \<Rightarrow> 32 word list) \<Rightarrow> int \<Rightarrow> 'a state_table \<Rightarrow> 'a state_table" where
  "club_presence m hi out cnt tbl =
     fold (\<lambda>state t.
             fold (\<lambda>a t'. (let temp_state = uint (t' (state AND m) a)
                            in if out (temp_state AND m) \<noteq> []
                               then t'((state AND m) := (t' (state AND m))(a := t' (state AND m) a OR hi))
                               else t'))
                  ascii_codes t)
          [0..cnt - 1] tbl"

text \<open>The two blocks of \<^verbatim>\<open>SCPFACClubOutputStatePresenceWithDeltaTable\<close>.  With no
  state the loops do not run and no table is read.\<close>

definition presence_u16 :: "bool \<Rightarrow> SCPFACCtx \<Rightarrow> pfac_error + SCPFACCtx" where
  "presence_u16 both c =
     (if (state_count c < 32767 \<or> both) \<and> 0 < state_count c
      then (case state_table_u16 c of
              None \<Rightarrow> Inl NullDeref
            | Some t \<Rightarrow>
                Inr (c\<lparr>state_table_u16 :=
                         Some (club_presence 0x7FFF (push_bit 15 1)
                                 (output_table c) (state_count c) t)\<rparr>))
      else Inr c)"

definition presence_u32 :: "bool \<Rightarrow> SCPFACCtx \<Rightarrow> pfac_error + SCPFACCtx" where
  "presence_u32 both c =
     (if (\<not> state_count c < 32767 \<or> both) \<and> 0 < state_count c
      then (case state_table_u32 c of
              None \<Rightarrow> Inl NullDeref
            | Some t \<Rightarrow>
                Inr (c\<lparr>state_table_u32 :=
                         Some (club_presence 0x00FFFFFF (push_bit 24 1)
                                 (output_table c) (state_count c) t)\<rparr>))
      else Inr c)"

definition SCPFACClubOutputStatePresenceWithDeltaTable :: "bool \<Rightarrow> SCPFACCtx \<Rightarrow> pfac_error + SCPFACCtx" where
  "SCPFACClubOutputStatePresenceWithDeltaTable both c =
     (case presence_u16 both c of
        Inl e \<Rightarrow> Inl e
      | Inr c1 \<Rightarrow> presence_u32 both c1)"

text \<open>\<^verbatim>\<open>SCPFACInsertCaseSensitiveEntriesForPatterns\<close>: every stored pid whose
  \<^verbatim>\<open>pid_pat_list\<close> entry has case-sensitive bytes is cut to 16 bits and gets bit 16.\<close>

definition SCPFACInsertCaseSensitiveEntriesForPatterns :: "SCPFACCtx \<Rightarrow> SCPFACCtx" where
  "SCPFACInsertCaseSensitiveEntriesForPatterns c =
     fold (\<lambda>state c'.
             c'\<lparr>output_table := (output_table c')(state :=
                  map (\<lambda>pid. if pl_cs (pid_pat_list c' (unat pid)) \<noteq> None
                              then (pid AND 0x0000FFFF) OR push_bit 16 1 else pid)
                      (output_table c' state))\<rparr>)
          [0..state_count c - 1] c"

subsection \<open>Prepare\<close>

text \<open>\<^verbatim>\<open>SCPFACPrepareStateTable\<close>.  The call of \<^verbatim>\<open>SCPFACCreateFailureTable\<close> is commented
  out in the source.  The freed goto table is the zero table.\<close>

definition SCPFACPrepareStateTable :: "bool \<Rightarrow> nat \<Rightarrow> SCPFACCtx \<Rightarrow> (pfac_error + SCPFACCtx) option" where
  "SCPFACPrepareStateTable both cnt c =
     (let c1 = snd (SCPFACInitNewState c);
          c2 = SCPFACDetermineLevel1Gap cnt c1;
          c3 = SCPFACCreateGotoTable cnt c2
      in case SCPFACCreateDeltaTable both c3 of
           None \<Rightarrow> None
         | Some (Inl e) \<Rightarrow> Some (Inl e)
         | Some (Inr c4) \<Rightarrow>
             (case SCPFACClubOutputStatePresenceWithDeltaTable both c4 of
                Inl e \<Rightarrow> Some (Inl e)
              | Inr c5 \<Rightarrow>
                  Some (Inr ((SCPFACInsertCaseSensitiveEntriesForPatterns c5)
                               \<lparr>goto_table := (\<lambda>_ _. 0)\<rparr>))))"

text \<open>The pattern array: the chains of the buckets \<open>0 .. INIT_HASH_SIZE - 1\<close>, one after
  the other.\<close>

definition collect_parray :: "(nat \<Rightarrow> SCPFACPattern list) \<Rightarrow> SCPFACPattern list" where
  "collect_parray h = concat (map h [0..<INIT_HASH_SIZE])"

text \<open>The loop filling \<^verbatim>\<open>pid_pat_list\<close>: only patterns without the NOCASE flag get
  an entry.\<close>

definition fill_pid_pat_list :: "SCPFACPattern list \<Rightarrow> nat \<Rightarrow> SCPFACPatternList" where
  "fill_pid_pat_list ps =
     fold (\<lambda>p l. if flags p AND MPM_PATTERN_FLAG_NOCASE = 0
                  then l(unat (id' p) := \<lparr>pl_cs = Some (take (len p) (original_pat p)),
                                         patlen = len p\<rparr>)
                  else l)
          ps (\<lambda>_. \<lparr>pl_cs = None, patlen = 0\<rparr>)"

text \<open>\<^verbatim>\<open>SCPFACPreparePatterns\<close>.  The result is the return value and the context; the
  pattern array has exactly \<^verbatim>\<open>pattern_cnt\<close> slots, so a hash holding another number of
  patterns makes the code run over the array or read a NULL slot.\<close>

definition SCPFACPreparePatterns :: "bool \<Rightarrow> MpmCtx \<Rightarrow> (pfac_error + int \<times> MpmCtx) option" where
  "SCPFACPreparePatterns both mpm_ctx =
     (case init_hash (ctx mpm_ctx) of
        None \<Rightarrow> Some (Inr (0, mpm_ctx))
      | Some h \<Rightarrow>
          if pattern_cnt mpm_ctx = 0 then Some (Inr (0, mpm_ctx))
          else (let ps = collect_parray h
                in if length ps \<noteq> pattern_cnt mpm_ctx then Some (Inl ParrayOverrun)
                   else (case SCPFACPrepareStateTable both (pattern_cnt mpm_ctx)
                                 ((ctx mpm_ctx)\<lparr>parray := ps, init_hash := None,
                                                pid_pat_list := fill_pid_pat_list ps\<rparr>) of
                           None \<Rightarrow> None
                         | Some (Inl e) \<Rightarrow> Some (Inl e)
                         | Some (Inr c') \<Rightarrow>
                             Some (Inr (0, mpm_ctx\<lparr>ctx := c'\<lparr>parray := []\<rparr>\<rparr>)))))"

subsection \<open>The sink\<close>

text \<open>The fields of \<^verbatim>\<open>PatternMatcherQueue\<close> the scan writes: the bit array indexed by
  pattern id, and the array of recorded ids, held as the list of its first
  \<^verbatim>\<open>pattern_id_array_cnt\<close> slots.  Both are taken to be large enough for every id stored.\<close>

record PatternMatcherQueue =
  pattern_id_bitarray :: "nat \<Rightarrow> byte"
  pattern_id_array :: "32 word list"

text \<open>Modelled from the spec: the sink factory and reset (\<^verbatim>\<open>PmqSetup\<close>, \<^verbatim>\<open>PmqReset\<close>)
  are not part of the source tree; a fresh sink has no bit set and an empty list.\<close>

definition pmq_fresh :: PatternMatcherQueue where
  "pmq_fresh = \<lparr>pattern_id_bitarray = (\<lambda>_. 0), pattern_id_array = []\<rparr>"

text \<open>The test \<^verbatim>\<open>bitarray[pid / 8] & (1 << (pid % 8))\<close>.\<close>

definition pmq_bit_set :: "PatternMatcherQueue \<Rightarrow> 32 word \<Rightarrow> bool" where
  "pmq_bit_set pmq pid =
     (pattern_id_bitarray pmq (unat pid div 8) AND push_bit (unat pid mod 8) 1 \<noteq> 0)"

text \<open>The four copies of the \<^verbatim>\<open>if (bit set) ; else { set bit; append pid }\<close> block.\<close>

definition pmq_store :: "PatternMatcherQueue \<Rightarrow> 32 word \<Rightarrow> PatternMatcherQueue" where
  "pmq_store pmq pid =
     (if pmq_bit_set pmq pid then pmq
      else pmq\<lparr>pattern_id_bitarray :=
                  (pattern_id_bitarray pmq)(unat pid div 8 :=
                     pattern_id_bitarray pmq (unat pid div 8) OR push_bit (unat pid mod 8) 1),
                pattern_id_array := pattern_id_array pmq @ [pid]\<rparr>)"

subsection \<open>Scan\<close>

text \<open>The comparison
  \<^verbatim>\<open>SCMemcmp(pid_pat_list[pid & 0xFFFF].cs, buf + i - patlen + 1, patlen)\<close>, where \<open>i\<close> is
  the variable of the outer loop.  With \<open>patlen = 0\<close> (an entry that was never filled)
  no byte is compared and the result is 0.  Otherwise the bytes are read: through a NULL
  pointer when the entry has none, and from before the buffer when \<open>patlen > i + 1\<close>.\<close>

definition verify_cs ::
  "(nat \<Rightarrow> SCPFACPatternList) \<Rightarrow> byte list \<Rightarrow> nat \<Rightarrow> 32 word \<Rightarrow> pfac_error + int" where
  "verify_cs ppl buf i pid =
     (let e = ppl (unat (pid AND 0x0000FFFF))
      in if patlen e = 0 then Inr 0
         else (case pl_cs e of
                 None \<Rightarrow> Inl NullDeref
               | Some c \<Rightarrow>
                   if i + 1 < patlen e then Inl ReadBeforeBuffer
                   else Inr (SCMemcmp c (drop (i + 1 - patlen e) buf) (patlen e))))"

text \<open>The loop over the pids of a match state, 16-bit branch.  A failed comparison leaves
  the loop (\<^verbatim>\<open>break\<close>).\<close>

fun search_pids_u16 ::
  "(nat \<Rightarrow> SCPFACPatternList) \<Rightarrow> byte list \<Rightarrow> nat \<Rightarrow> 32 word list \<Rightarrow> PatternMatcherQueue
     \<Rightarrow> pfac_error + PatternMatcherQueue" where
  "search_pids_u16 ppl buf i [] pmq = Inr pmq"
| "search_pids_u16 ppl buf i (pid # pids) pmq =
     (if pid AND 0xFFFF0000 \<noteq> 0
      then (case verify_cs ppl buf i pid of
              Inl e \<Rightarrow> Inl e
            | Inr r \<Rightarrow>
                if r \<noteq> 0 then Inr pmq
                else search_pids_u16 ppl buf i pids (pmq_store pmq (pid AND 0x0000FFFF)))
      else search_pids_u16 ppl buf i pids (pmq_store pmq pid))"

text \<open>The loop \<^verbatim>\<open>for (j = i; j < buflen; j++)\<close> of the 16-bit branch; the loop state is
  \<^verbatim>\<open>state\<close>, \<^verbatim>\<open>matches\<close> and the sink.  \<^verbatim>\<open>matches\<close> is counted once per cell with the
  output bit, before the pids are looked at.\<close>

fun search_inner_u16 ::
  "SCPFACCtx \<Rightarrow> 16 state_table \<Rightarrow> byte list \<Rightarrow> nat \<Rightarrow> nat list
     \<Rightarrow> 16 word \<times> nat \<times> PatternMatcherQueue
     \<Rightarrow> pfac_error + 16 word \<times> nat \<times> PatternMatcherQueue" where
  "search_inner_u16 c tbl buf i [] st = Inr st"
| "search_inner_u16 c tbl buf i (j # js) st =
     (let state = tbl (uint (fst st AND 0x7FFF)) (u8_tolower (buf ! j))
      in if state = 0 then Inr (state, snd st)
         else if state AND 0x8000 \<noteq> 0
         then (case search_pids_u16 (pid_pat_list c) buf i
                      (output_table c (uint (state AND 0x7FFF))) (snd (snd st)) of
                 Inl e \<Rightarrow> Inl e
               | Inr pmq \<Rightarrow> search_inner_u16 c tbl buf i js (state, fst (snd st) + 1, pmq))
         else search_inner_u16 c tbl buf i js (state, snd st))"

text \<open>The loop \<^verbatim>\<open>for (i = 0; i < buflen; i++)\<close>; \<^verbatim>\<open>state\<close> is declared outside it and is
  not reset between its rounds.\<close>

fun search_outer_u16 ::
  "SCPFACCtx \<Rightarrow> 16 state_table \<Rightarrow> byte list \<Rightarrow> nat list
     \<Rightarrow> 16 word \<times> nat \<times> PatternMatcherQueue
     \<Rightarrow> pfac_error + 16 word \<times> nat \<times> PatternMatcherQueue" where
  "search_outer_u16 c tbl buf [] st = Inr st"
| "search_outer_u16 c tbl buf (i # is) st =
     (case search_inner_u16 c tbl buf i [i..<length buf] st of
        Inl e \<Rightarrow> Inl e
      | Inr st' \<Rightarrow> search_outer_u16 c tbl buf is st')"

text \<open>The pid loop of the 32-bit branch counts \<^verbatim>\<open>matches\<close> once per pid that is let
  through.\<close>

fun search_pids_u32 ::
  "(nat \<Rightarrow> SCPFACPatternList) \<Rightarrow> byte list \<Rightarrow> nat \<Rightarrow> 32 word list \<Rightarrow> nat \<times> PatternMatcherQueue
     \<Rightarrow> pfac_error + nat \<times> PatternMatcherQueue" where
  "search_pids_u32 ppl buf i [] mp = Inr mp"
| "search_pids_u32 ppl buf i (pid # pids) mp =
     (if pid AND 0xFFFF0000 \<noteq> 0
      then (case verify_cs ppl buf i pid of
              Inl e \<Rightarrow> Inl e
            | Inr r \<Rightarrow>
                if r \<noteq> 0 then Inr mp
                else search_pids_u32 ppl buf i pids
                       (fst mp + 1, pmq_store (snd mp) (pid AND 0x0000FFFF)))
      else search_pids_u32 ppl buf i pids (fst mp + 1, pmq_store (snd mp) pid))"

text \<open>The inner loop of the 32-bit branch reads \<^verbatim>\<open>buf[i]\<close> in every round and has no
  \<^verbatim>\<open>break\<close>.\<close>

fun search_inner_u32 ::
  "SCPFACCtx \<Rightarrow> 32 state_table \<Rightarrow> byte list \<Rightarrow> nat \<Rightarrow> nat list
     \<Rightarrow> 32 word \<times> nat \<times> PatternMatcherQueue
     \<Rightarrow> pfac_error + 32 word \<times> nat \<times> PatternMatcherQueue" where
  "search_inner_u32 c tbl buf i [] st = Inr st"
| "search_inner_u32 c tbl buf i (j # js) st =
     (let state = tbl (uint (fst st AND 0x00FFFFFF)) (u8_tolower (buf ! i))
      in if state AND 0xFF000000 \<noteq> 0
         then (case search_pids_u32 (pid_pat_list c) buf i
                      (output_table c (uint (state AND 0x00FFFFFF))) (snd st) of
                 Inl e \<Rightarrow> Inl e
               | Inr mp \<Rightarrow> search_inner_u32 c tbl buf i js (state, mp))
         else search_inner_u32 c tbl buf i js (state, snd st))"

fun search_outer_u32 ::
  "SCPFACCtx \<Rightarrow> 32 state_table \<Rightarrow> byte list \<Rightarrow> nat list
     \<Rightarrow> 32 word \<times> nat \<times> PatternMatcherQueue
     \<Rightarrow> pfac_error + 32 word \<times> nat \<times> PatternMatcherQueue" where
  "search_outer_u32 c tbl buf [] st = Inr st"
| "search_outer_u32 c tbl buf (i # is) st =
     (case search_inner_u32 c tbl buf i [i..<length buf] st of
        Inl e \<Rightarrow> Inl e
      | Inr st' \<Rightarrow> search_outer_u32 c tbl buf is st')"

text \<open>\<^verbatim>\<open>SCPFACSearch\<close>: the buffer is the list of its \<^verbatim>\<open>buflen\<close> bytes; the result is the
  returned count and the sink.  \<^verbatim>\<open>matches\<close> is counted without a bound.\<close>

definition SCPFACSearch ::
  "MpmCtx \<Rightarrow> PatternMatcherQueue \<Rightarrow> byte list \<Rightarrow> pfac_error + nat \<times> PatternMatcherQueue" where
  "SCPFACSearch mpm_ctx pmq buf =
     (if buf = [] then Inr (0, pmq)
      else if state_count (ctx mpm_ctx) < 32767
      then (case state_table_u16 (ctx mpm_ctx) of
              None \<Rightarrow> Inl NullDeref
            | Some tbl \<Rightarrow>
                (case search_outer_u16 (ctx mpm_ctx) tbl buf [0..<length buf] (0, 0, pmq) of
                   Inl e \<Rightarrow> Inl e
                 | Inr st \<Rightarrow> Inr (snd st)))
      else (case state_table_u32 (ctx mpm_ctx) of
              None \<Rightarrow> Inl NullDeref
            | Some tbl \<Rightarrow>
                (case search_outer_u32 (ctx mpm_ctx) tbl buf [0..<length buf] (0, 0, pmq) of
                   Inl e \<Rightarrow> Inl e
                 | Inr st \<Rightarrow> Inr (snd st))))"

subsection \<open>Derived notions used in the statements\<close>

text \<open>The chain of the hash bucket a byte string falls into (empty when the hash is NULL).\<close>

definition bucket_chain :: "MpmCtx \<Rightarrow> byte list \<Rightarrow> SCPFACPattern list" where
  "bucket_chain mpm_ctx pat =
     (case init_hash (ctx mpm_ctx) of
        None \<Rightarrow> []
      | Some h \<Rightarrow> h (SCPFACInitHashRaw pat))"

text \<open>The sink is consistent when no id occurs twice in the list and the bit of an id is set
  exactly when the id is in the list.\<close>

definition sink_consistent :: "PatternMatcherQueue \<Rightarrow> bool" where
  "sink_consistent pmq \<longleftrightarrow>
     distinct (pattern_id_array pmq)
     \<and> (\<forall>pid. pmq_bit_set pmq pid \<longleftrightarrow> pid \<in> set (pattern_id_array pmq))"

text \<open>The goto rows of the allocated states hold FAIL or the id of an allocated state.\<close>

definition goto_ok :: "SCPFACCtx \<Rightarrow> bool" where
  "goto_ok c \<longleftrightarrow>
     1 \<le> state_count c
     \<and> (\<forall>s a. 0 \<le> s \<and> s < state_count c
            \<longrightarrow> goto_table c s a = SC_PFAC_FAIL
                \<or> (0 \<le> goto_table c s a \<and> goto_table c s a < state_count c))"

text \<open>Every slot of the queue holds the id of one of \<open>n\<close> states.\<close>

definition queue_ok :: "int \<Rightarrow> StateQueue \<Rightarrow> bool" where
  "queue_ok n q \<longleftrightarrow> (\<forall>i. 0 \<le> store q i \<and> store q i < n)"

text \<open>Every cell of a state table is the id of one of \<open>n\<close> states.\<close>

definition cells_ok :: "int \<Rightarrow> 'a::len state_table \<Rightarrow> bool" where
  "cells_ok n t \<longleftrightarrow> (\<forall>s a. \<exists>v. 0 \<le> v \<and> v < n \<and> t s a = word_of_int v)"

text \<open>A cell whose goto entry is FAIL is 0.\<close>

definition fail_zero :: "(int \<Rightarrow> byte \<Rightarrow> int) \<Rightarrow> 'a::len state_table \<Rightarrow> bool" where
  "fail_zero g t \<longleftrightarrow> (\<forall>s a. g s a = SC_PFAC_FAIL \<longrightarrow> t s a = 0)"

text \<open>Enqueueing a list of states, one after the other.\<close>

fun enqueue_all :: "StateQueue \<Rightarrow> int list \<Rightarrow> pfac_error + StateQueue" where
  "enqueue_all q [] = Inr q"
| "enqueue_all q (s # ss) =
     (case SCPFACEnqueue q s of Inl e \<Rightarrow> Inl e | Inr q1 \<Rightarrow> enqueue_all q1 ss)"

text \<open>The bytes with a transition out of state \<open>r\<close>, in loop order, and the bytes that do
  not lead from state 0 back to state 0.\<close>

definition row_kids :: "(int \<Rightarrow> byte \<Rightarrow> int) \<Rightarrow> int \<Rightarrow> byte list" where
  "row_kids g r = filter (\<lambda>a. g r a \<noteq> SC_PFAC_FAIL) ascii_codes"

definition root_kids :: "(int \<Rightarrow> byte \<Rightarrow> int) \<Rightarrow> byte list" where
  "root_kids g = filter (\<lambda>a. g 0 a \<noteq> 0) ascii_codes"

text \<open>A queue that has not wrapped around, as the list of everything enqueued so far and
  the number of states already taken out.\<close>

definition queue_of :: "int list \<Rightarrow> nat \<Rightarrow> StateQueue" where
  "queue_of xs k = \<lparr>store = (\<lambda>i. if i < length xs then xs ! i else 0), top' = length xs, bot' = k\<rparr>"

text \<open>\<^verbatim>\<open>SCPFACEnqueue\<close> on such a list: a state is appended unless it waits in the queue.\<close>

definition enq_list :: "nat \<Rightarrow> int list \<Rightarrow> int list \<Rightarrow> int list" where
  "enq_list k ss xs = fold (\<lambda>s xs. if s \<in> set (drop k xs) then xs else xs @ [s]) ss xs"

text \<open>The breadth-first walk on such a list, with a bound on the number of rounds; the result
  is the list of all states enqueued.\<close>

fun abs_bfs :: "(int \<Rightarrow> byte \<Rightarrow> int) \<Rightarrow> nat \<Rightarrow> int list \<Rightarrow> nat \<Rightarrow> int list option" where
  "abs_bfs g 0 xs k = (if length xs \<le> k then Some xs else None)"
| "abs_bfs g (Suc f) xs k =
     (if length xs \<le> k then Some xs
      else abs_bfs g f (enq_list (Suc k) (map (g (xs ! k)) (row_kids g (xs ! k))) xs) (Suc k))"

text \<open>The delta table whose rows of the states in \<open>D\<close> are filled from the goto table.\<close>

definition tab :: "(int \<Rightarrow> byte \<Rightarrow> int) \<Rightarrow> int set \<Rightarrow> 'a::len state_table" where
  "tab g D = (\<lambda>s a. if s \<in> D \<and> g s a \<noteq> SC_PFAC_FAIL then word_of_int (g s a) else 0)"

text \<open>A context after a sequence of registrations \<open>(bytes, id, flags)\<close> on a new context.\<close>

definition register_all :: "(byte list \<times> 32 word \<times> byte) list \<Rightarrow> MpmCtx" where
  "register_all regs =
     fold (\<lambda>r m. snd (SCPFACAddPattern m (fst r) 0 0 (fst (snd r)) 0 (snd (snd r))))
          regs SCPFACInitCtx"

text \<open>Registering a list of patterns on a new context, preparing it with the flag for both
  table widths off, and scanning a buffer with a fresh sink: the returned count and the list
  of recorded ids.\<close>

definition scan_fresh ::
  "(byte list \<times> 32 word \<times> byte) list \<Rightarrow> byte list \<Rightarrow> (pfac_error + nat \<times> 32 word list) option" where
  "scan_fresh regs buf =
     (case SCPFACPreparePatterns False (register_all regs) of
        None \<Rightarrow> None
      | Some (Inl e) \<Rightarrow> Some (Inl e)
      | Some (Inr rm) \<Rightarrow>
          Some (case SCPFACSearch (snd rm) pmq_fresh buf of
                  Inl e \<Rightarrow> Inl e
                | Inr np \<Rightarrow> Inr (fst np, pattern_id_array (snd np))))"

section \<open>Properties\<close>

text \<open>C9: registering a pattern of length 0 returns 0 (success) and leaves the whole
  context as it was: no pattern is inserted, and the pattern count, the minimum and maximum
  length and the maximum pattern id keep their values.\<close>

theorem C9_add_empty_pattern_ignored:
  "SCPFACAddPattern mpm_ctx [] offset depth pid sid fl = (0, mpm_ctx)"
  by (simp add: SCPFACAddPattern_def)

subsection \<open>Duplicate registrations\<close>

lemma lookup_finds_same_id:
  assumes "pid \<in> id' ` set (bucket_chain mpm_ctx pat)"
  shows "\<exists>p. SCPFACInitHashLookup (ctx mpm_ctx) pat fl pid = Some p"
proof (cases "init_hash (ctx mpm_ctx)")
  case None
  with assms show ?thesis by (simp add: bucket_chain_def)
next
  case (Some h)
  with assms obtain t where "t \<in> set (h (SCPFACInitHashRaw pat))" and "id' t = pid"
    by (auto simp: bucket_chain_def)
  then have "find (\<lambda>t. id' t = pid) (h (SCPFACInitHashRaw pat)) \<noteq> None"
    unfolding find_None_iff by blast
  with Some show ?thesis by (simp add: SCPFACInitHashLookup_def)
qed

lemma add_pattern_empty [simp]:
  "SCPFACAddPattern m [] offset depth pid sid fl = (0, m)"
  by (simp add: SCPFACAddPattern_def)

lemma add_pattern_hit:
  assumes "pid \<in> id' ` set (bucket_chain m pat)"
  shows "SCPFACAddPattern m pat offset depth pid sid fl = (0, m)"
proof -
  obtain p where "SCPFACInitHashLookup (ctx m) pat fl pid = Some p"
    using lookup_finds_same_id [OF assms] by blast
  then show ?thesis by (simp add: SCPFACAddPattern_def Let_def)
qed

lemma lookup_misses_other_id:
  assumes "pid \<notin> id' ` set (bucket_chain m pat)"
  shows "SCPFACInitHashLookup (ctx m) pat fl pid = None"
proof (cases "init_hash (ctx m)")
  case None
  then show ?thesis by (simp add: SCPFACInitHashLookup_def)
next
  case (Some h)
  with assms have "\<not> (\<exists>t. t \<in> set (h (SCPFACInitHashRaw pat)) \<and> id' t = pid)"
    by (auto simp: bucket_chain_def)
  then have "find (\<lambda>t. id' t = pid) (h (SCPFACInitHashRaw pat)) = None"
    unfolding find_None_iff .
  with Some show ?thesis by (simp add: SCPFACInitHashLookup_def)
qed

text \<open>A registration that finds no entry with its id in the bucket of its bytes inserts.\<close>

lemma add_pattern_miss:
  assumes "pat \<noteq> []" and "pid \<notin> id' ` set (bucket_chain m pat)"
  shows "pattern_cnt (snd (SCPFACAddPattern m pat offset depth pid sid fl)) = pattern_cnt m + 1"
  using assms(1) lookup_misses_other_id [OF assms(2)]
  by (simp add: SCPFACAddPattern_def Let_def)

lemma add_pattern_hash_kept:
  "init_hash (ctx m) \<noteq> None
   \<Longrightarrow> init_hash (ctx (snd (SCPFACAddPattern m pat offset depth pid sid fl))) \<noteq> None"
  by (auto simp: SCPFACAddPattern_def SCPFACInitHashAdd_def Let_def split: option.splits)

text \<open>The ids in a bucket after one registration.\<close>

lemma bucket_ids_add_pattern:
  assumes "init_hash (ctx m) \<noteq> None"
  shows "id' ` set (bucket_chain (snd (SCPFACAddPattern m pat0 offset depth pid sid fl)) pat)
         = id' ` set (bucket_chain m pat)
           \<union> (if pat0 \<noteq> [] \<and> SCPFACInitHashRaw pat0 = SCPFACInitHashRaw pat then {pid} else {})"
proof (cases "pat0 = []")
  case True
  then show ?thesis by simp
next
  case ne: False
  show ?thesis
  proof (cases "pid \<in> id' ` set (bucket_chain m pat0)")
    case True
    then have "pid \<in> id' ` set (bucket_chain m pat)"
      if "SCPFACInitHashRaw pat0 = SCPFACInitHashRaw pat"
      using that by (simp add: bucket_chain_def)
    then show ?thesis
      using add_pattern_hit [OF True] by auto
  next
    case False
    from assms obtain h where h: "init_hash (ctx m) = Some h" by blast
    define p where "p = \<lparr>len = length pat0, flags = fl, id' = pid, original_pat = pat0,
                             ci = memcpy_tolower pat0,
                             cs = (if fl AND MPM_PATTERN_FLAG_NOCASE \<noteq> 0 then memcpy_tolower pat0
                                   else if memcpy_tolower pat0 = pat0 then memcpy_tolower pat0
                                   else pat0)\<rparr>"
    have p: "id' p = pid" by (simp add: p_def)
    have h': "init_hash (ctx (snd (SCPFACAddPattern m pat0 offset depth pid sid fl)))
                = Some (h(SCPFACInitHashRaw pat0 := h (SCPFACInitHashRaw pat0) @ [p]))"
      using ne h lookup_misses_other_id [OF False]
      by (simp add: SCPFACAddPattern_def SCPFACInitHashAdd_def SCPFACInitHash_def Let_def p_def)
    show ?thesis
      using ne p by (auto simp: bucket_chain_def h h')
  qed
qed

lemma register_all_snoc:
  "register_all (regs @ [r])
   = snd (SCPFACAddPattern (register_all regs) (fst r) 0 0 (fst (snd r)) 0 (snd (snd r)))"
  by (simp add: register_all_def)

lemma register_all_hash: "init_hash (ctx (register_all regs)) \<noteq> None"
proof (induction regs rule: rev_induct)
  case Nil
  show ?case by (simp add: register_all_def SCPFACInitCtx_def)
next
  case (snoc r regs)
  then show ?case by (simp add: register_all_snoc add_pattern_hash_kept)
qed

text \<open>The ids held in the bucket of a byte string after a sequence of registrations.\<close>

lemma bucket_ids_register_all:
  "id' ` set (bucket_chain (register_all regs) pat)
   = {pid. \<exists>pat0 fl0. (pat0, pid, fl0) \<in> set regs \<and> pat0 \<noteq> []
                     \<and> SCPFACInitHashRaw pat0 = SCPFACInitHashRaw pat}"
proof (induction regs rule: rev_induct)
  case Nil
  show ?case by (simp add: register_all_def SCPFACInitCtx_def bucket_chain_def)
next
  case (snoc r regs)
  obtain pat1 pid1 fl1 where r: "r = (pat1, pid1, fl1)" by (cases r) auto
  show ?case
    unfolding register_all_snoc bucket_ids_add_pattern [OF register_all_hash] snoc.IH
    by (auto simp: r)
qed

lemma register_all_append:
  "register_all (xs @ ys)
   = fold (\<lambda>r m. snd (SCPFACAddPattern m (fst r) 0 0 (fst (snd r)) 0 (snd (snd r))))
          ys (register_all xs)"
  by (simp add: register_all_def)

text \<open>C5, as stated, fails: a second registration with the id of an earlier pattern is only
  dropped when the earlier pattern sits in the hash bucket of the new bytes.  Registering
  "b" with id 0 after "a" with id 0 inserts a second pattern.\<close>

theorem C5_same_id_other_bucket_counterexample:
  "pattern_cnt (snd (SCPFACAddPattern SCPFACInitCtx [0x61] 0 0 0 0 0)) = 1
   \<and> pattern_cnt (snd (SCPFACAddPattern
                        (snd (SCPFACAddPattern SCPFACInitCtx [0x61] 0 0 0 0 0))
                        [0x62] 0 0 0 0 0)) = 2"
  by (simp add: SCPFACAddPattern_def SCPFACInitHashLookup_def SCPFACInitHashAdd_def
        SCPFACInitHash_def SCPFACInitHashRaw_def INIT_HASH_SIZE_def SCPFACInitCtx_def
        memcpy_tolower_def u8_tolower_def MPM_PATTERN_FLAG_NOCASE_def Let_def)

text \<open>C5, amended: for every sequence of registrations, registering a pattern whose id
  equals the id of an earlier non-empty registration whose bytes fall into the same hash
  bucket (bucket (patlen * pat[0] + pat[1]) mod 65536; in particular an earlier registration
  of the same bytes) is a no-op: the call returns 0 and leaves the context unchanged, the
  registrations that follow give the same context as without it, and so prepare gives the
  same compiled context.  A non-empty registration whose id was not registered before with
  bytes of its bucket inserts a pattern, whether or not the id is already in use.\<close>

theorem C5_repeated_id_in_bucket_noop:
  assumes "(pat0, pid, fl0) \<in> set regs" and "pat0 \<noteq> []"
    and "SCPFACInitHashRaw pat = SCPFACInitHashRaw pat0"
  shows "SCPFACAddPattern (register_all regs) pat offset depth pid sid fl = (0, register_all regs)
       \<and> register_all (regs @ (pat, pid, fl) # rest) = register_all (regs @ rest)
       \<and> SCPFACPreparePatterns both (register_all (regs @ (pat, pid, fl) # rest))
           = SCPFACPreparePatterns both (register_all (regs @ rest))
       \<and> (pat' \<noteq> []
            \<and> \<not> (\<exists>pat1 fl1. (pat1, pid', fl1) \<in> set regs \<and> pat1 \<noteq> []
                             \<and> SCPFACInitHashRaw pat1 = SCPFACInitHashRaw pat')
          \<longrightarrow> pattern_cnt (snd (SCPFACAddPattern (register_all regs) pat' offset depth pid' sid fl'))
               = pattern_cnt (register_all regs) + 1)"
proof -
  have hit: "pid \<in> id' ` set (bucket_chain (register_all regs) pat)"
    unfolding bucket_ids_register_all using assms by auto
  have noop: "SCPFACAddPattern (register_all regs) pat offset depth pid sid fl
              = (0, register_all regs)" for offset depth sid
    by (rule add_pattern_hit [OF hit])
  have same: "register_all (regs @ (pat, pid, fl) # rest) = register_all (regs @ rest)"
    unfolding register_all_append by (simp add: noop)
  have miss: "pattern_cnt (snd (SCPFACAddPattern (register_all regs) pat' offset depth pid' sid fl'))
               = pattern_cnt (register_all regs) + 1"
    if "pat' \<noteq> []"
      and "\<not> (\<exists>pat1 fl1. (pat1, pid', fl1) \<in> set regs \<and> pat1 \<noteq> []
                             \<and> SCPFACInitHashRaw pat1 = SCPFACInitHashRaw pat')"
  proof (rule add_pattern_miss [OF that(1)])
    show "pid' \<notin> id' ` set (bucket_chain (register_all regs) pat')"
      unfolding bucket_ids_register_all using that(2) by blast
  qed
  show ?thesis using noop same miss by simp
qed

theorem C5_repeated_id_in_bucket_noop_witness:
  "([0x61], 0, 0) \<in> set [([0x61 :: byte], 0 :: 32 word, 0 :: byte)]
   \<and> SCPFACInitHashRaw [0x61] = SCPFACInitHashRaw [0x61]
   \<and> SCPFACAddPattern (register_all [([0x61], 0, 0)]) [0x61] 0 0 0 0 1
       = (0, register_all [([0x61], 0, 0)])
   \<and> register_all ([([0x61], 0, 0)] @ ([0x61], 0, 1) # [([0x62], 1, 0)])
       = register_all ([([0x61], 0, 0)] @ [([0x62], 1, 0)])
   \<and> SCPFACPreparePatterns False (register_all ([([0x61], 0, 0)] @ ([0x61], 0, 1) # [([0x62], 1, 0)]))
       = SCPFACPreparePatterns False (register_all ([([0x61], 0, 0)] @ [([0x62], 1, 0)]))
   \<and> pattern_cnt (snd (SCPFACAddPattern (register_all [([0x61], 0, 0)]) [0x62] 0 0 0 0 0))
       = pattern_cnt (register_all [([0x61], 0, 0)]) + 1"
proof -
  have a: "([0x61], 0, 0) \<in> set [([0x61 :: byte], 0 :: 32 word, 0 :: byte)]" by simp
  have b: "[0x61 :: byte] \<noteq> []" by simp
  have c: "\<not> (\<exists>pat1 fl1. (pat1, 0, fl1) \<in> set [([0x61 :: byte], 0 :: 32 word, 0 :: byte)] \<and> pat1 \<noteq> []
                         \<and> SCPFACInitHashRaw pat1 = SCPFACInitHashRaw [0x62])"
    by (simp add: SCPFACInitHashRaw_def INIT_HASH_SIZE_def)
  show ?thesis
    using C5_repeated_id_in_bucket_noop [OF a b refl, of 0 0 0 1 "[([0x62], 1, 0)]" False "[0x62]" 0 0] c
    by simp
qed

subsection \<open>The sink stays consistent\<close>

lemma pmq_bit_set_iff_bit:
  "pmq_bit_set pmq pid \<longleftrightarrow> bit (pattern_id_bitarray pmq (unat pid div 8)) (unat pid mod 8)"
  by (simp add: pmq_bit_set_def bit_iff_and_push_bit_not_eq_0)

lemma same_slot_same_pid:
  fixes p q :: "32 word"
  assumes "unat q div 8 = unat p div 8" and "unat q mod 8 = unat p mod 8"
  shows "q = p"
proof -
  have "unat q = unat p"
    using assms by (metis div_mult_mod_eq)
  then show ?thesis by (simp add: word_unat_eq_iff)
qed

lemma pmq_bit_set_store:
  "pmq_bit_set (pmq_store pmq p) q \<longleftrightarrow> pmq_bit_set pmq q \<or> q = p"
proof (cases "pmq_bit_set pmq p")
  case True
  then show ?thesis by (auto simp: pmq_store_def)
next
  case False
  have m: "unat q mod 8 < 8" by simp
  show ?thesis
  proof (cases "unat q div 8 = unat p div 8")
    case True
    then show ?thesis
      using False m same_slot_same_pid [of q p]
      by (auto simp: pmq_store_def pmq_bit_set_iff_bit bit_simps)
  next
    case False
    then show ?thesis
      using \<open>\<not> pmq_bit_set pmq p\<close>
      by (auto simp: pmq_store_def pmq_bit_set_iff_bit)
  qed
qed

lemma pattern_id_array_store:
  "pattern_id_array (pmq_store pmq p) =
     (if pmq_bit_set pmq p then pattern_id_array pmq else pattern_id_array pmq @ [p])"
  by (simp add: pmq_store_def)

lemma sink_consistent_store:
  "sink_consistent pmq \<Longrightarrow> sink_consistent (pmq_store pmq p)"
  unfolding sink_consistent_def pmq_bit_set_store pattern_id_array_store
  by auto

lemma sink_consistent_fresh: "sink_consistent pmq_fresh"
  by (simp add: sink_consistent_def pmq_fresh_def pmq_bit_set_def)

lemma search_pids_u16_consistent:
  "search_pids_u16 ppl buf i pids pmq = Inr pmq' \<Longrightarrow> sink_consistent pmq
   \<Longrightarrow> sink_consistent pmq'"
proof (induction pids arbitrary: pmq)
  case Nil
  then show ?case by simp
next
  case (Cons pid pids)
  then show ?case
    by (auto split: if_splits sum.splits intro: sink_consistent_store)
qed

lemma search_pids_u32_consistent:
  "search_pids_u32 ppl buf i pids mp = Inr mp' \<Longrightarrow> sink_consistent (snd mp)
   \<Longrightarrow> sink_consistent (snd mp')"
proof (induction pids arbitrary: mp)
  case Nil
  then show ?case by simp
next
  case (Cons pid pids)
  show ?case
  proof (cases "pid AND 0xFFFF0000 \<noteq> 0")
    case True
    with Cons.prems obtain r where r: "verify_cs ppl buf i pid = Inr r"
      by (auto split: sum.splits)
    show ?thesis
    proof (cases "r \<noteq> 0")
      case True
      with Cons.prems \<open>pid AND 0xFFFF0000 \<noteq> 0\<close> r show ?thesis by auto
    next
      case False
      with Cons.prems \<open>pid AND 0xFFFF0000 \<noteq> 0\<close> r
      have "search_pids_u32 ppl buf i pids
              (fst mp + 1, pmq_store (snd mp) (pid AND 0x0000FFFF)) = Inr mp'"
        by simp
      then show ?thesis
        by (rule Cons.IH) (simp add: sink_consistent_store Cons.prems)
    qed
  next
    case False
    with Cons.prems
    have "search_pids_u32 ppl buf i pids (fst mp + 1, pmq_store (snd mp) pid) = Inr mp'"
      by simp
    then show ?thesis
      by (rule Cons.IH) (simp add: sink_consistent_store Cons.prems)
  qed
qed

lemma search_inner_u16_consistent:
  "search_inner_u16 c tbl buf i js st = Inr st' \<Longrightarrow> sink_consistent (snd (snd st))
   \<Longrightarrow> sink_consistent (snd (snd st'))"
proof (induction js arbitrary: st)
  case Nil
  then show ?case by simp
next
  case (Cons j js)
  define state where "state = tbl (uint (fst st AND 0x7FFF)) (u8_tolower (buf ! j))"
  show ?case
  proof (cases "state = 0")
    case True
    with Cons.prems show ?thesis by (auto simp: state_def Let_def)
  next
    case nz: False
    show ?thesis
    proof (cases "state AND 0x8000 \<noteq> 0")
      case True
      with nz Cons.prems obtain pmq where
        p: "search_pids_u16 (pid_pat_list c) buf i
              (output_table c (uint (state AND 0x7FFF))) (snd (snd st)) = Inr pmq"
        and rest: "search_inner_u16 c tbl buf i js (state, fst (snd st) + 1, pmq) = Inr st'"
        by (auto simp: state_def Let_def split: sum.splits)
      have "sink_consistent pmq"
        using search_pids_u16_consistent [OF p] Cons.prems(2) by simp
      then show ?thesis
        using Cons.IH [OF rest] by simp
    next
      case False
      with nz Cons.prems
      have "search_inner_u16 c tbl buf i js (state, snd st) = Inr st'"
        by (auto simp: state_def Let_def)
      then show ?thesis
        by (rule Cons.IH) (simp add: Cons.prems)
    qed
  qed
qed

lemma search_inner_u32_consistent:
  "search_inner_u32 c tbl buf i js st = Inr st' \<Longrightarrow> sink_consistent (snd (snd st))
   \<Longrightarrow> sink_consistent (snd (snd st'))"
proof (induction js arbitrary: st)
  case Nil
  then show ?case by simp
next
  case (Cons j js)
  define state where "state = tbl (uint (fst st AND 0x00FFFFFF)) (u8_tolower (buf ! i))"
  show ?case
  proof (cases "state AND 0xFF000000 \<noteq> 0")
    case True
    with Cons.prems obtain mp where
      p: "search_pids_u32 (pid_pat_list c) buf i
            (output_table c (uint (state AND 0x00FFFFFF))) (snd st) = Inr mp"
      and rest: "search_inner_u32 c tbl buf i js (state, mp) = Inr st'"
      by (auto simp: state_def Let_def split: sum.splits)
    have "sink_consistent (snd mp)"
      using search_pids_u32_consistent [OF p] Cons.prems(2) by simp
    then show ?thesis
      using Cons.IH [OF rest] by simp
  next
    case False
    with Cons.prems
    have "search_inner_u32 c tbl buf i js (state, snd st) = Inr st'"
      by (auto simp: state_def Let_def)
    then show ?thesis
      by (rule Cons.IH) (simp add: Cons.prems)
  qed
qed

lemma search_outer_u16_consistent:
  "search_outer_u16 c tbl buf is st = Inr st' \<Longrightarrow> sink_consistent (snd (snd st))
   \<Longrightarrow> sink_consistent (snd (snd st'))"
proof (induction "is" arbitrary: st)
  case Nil
  then show ?case by simp
next
  case (Cons i "is")
  from Cons.prems obtain st1 where
    a: "search_inner_u16 c tbl buf i [i..<length buf] st = Inr st1"
    and b: "search_outer_u16 c tbl buf is st1 = Inr st'"
    by (auto split: sum.splits)
  show ?case
    using Cons.IH [OF b] search_inner_u16_consistent [OF a] Cons.prems(2) by simp
qed

lemma search_outer_u32_consistent:
  "search_outer_u32 c tbl buf is st = Inr st' \<Longrightarrow> sink_consistent (snd (snd st))
   \<Longrightarrow> sink_consistent (snd (snd st'))"
proof (induction "is" arbitrary: st)
  case Nil
  then show ?case by simp
next
  case (Cons i "is")
  from Cons.prems obtain st1 where
    a: "search_inner_u32 c tbl buf i [i..<length buf] st = Inr st1"
    and b: "search_outer_u32 c tbl buf is st1 = Inr st'"
    by (auto split: sum.splits)
  show ?case
    using Cons.IH [OF b] search_inner_u32_consistent [OF a] Cons.prems(2) by simp
qed

lemma SCPFACSearch_consistent:
  assumes "SCPFACSearch mpm_ctx pmq buf = Inr (n, pmq')" and "sink_consistent pmq"
  shows "sink_consistent pmq'"
proof (cases "buf = []")
  case True
  with assms show ?thesis by (simp add: SCPFACSearch_def)
next
  case ne: False
  show ?thesis
  proof (cases "state_count (ctx mpm_ctx) < 32767")
    case True
    with ne assms(1) obtain tbl st where
      "search_outer_u16 (ctx mpm_ctx) tbl buf [0..<length buf] (0, 0, pmq) = Inr st"
      and "snd st = (n, pmq')"
      by (auto simp: SCPFACSearch_def split: option.splits sum.splits)
    then show ?thesis
      using search_outer_u16_consistent [of "ctx mpm_ctx" tbl buf "[0..<length buf]" "(0, 0, pmq)" st]
        assms(2) by simp
  next
    case False
    with ne assms(1) obtain tbl st where
      "search_outer_u32 (ctx mpm_ctx) tbl buf [0..<length buf] (0, 0, pmq) = Inr st"
      and "snd st = (n, pmq')"
      by (auto simp: SCPFACSearch_def split: option.splits sum.splits)
    then show ?thesis
      using search_outer_u32_consistent [of "ctx mpm_ctx" tbl buf "[0..<length buf]" "(0, 0, pmq)" st]
        assms(2) by simp
  qed
qed

subsection \<open>The byte loops\<close>

lemma set_ascii_codes: "set ascii_codes = UNIV"
proof -
  have "b \<in> set ascii_codes" for b :: byte
  proof -
    have "unat b < 2 ^ LENGTH(8)" by (rule unsigned_less)
    then have "unat b < 256" by simp
    moreover have "b = of_nat (unat b)" by simp
    ultimately show ?thesis
      unfolding ascii_codes_def by (metis (no_types) atLeastLessThan_iff image_eqI list.set_map set_upt zero_le)
  qed
  then show ?thesis by blast
qed

lemma distinct_ascii_codes: "distinct ascii_codes"
proof -
  have "inj_on (of_nat :: nat \<Rightarrow> byte) {0..<256}"
  proof (rule inj_onI)
    fix x y :: nat
    assume "x \<in> {0..<256}" "y \<in> {0..<256}" and e: "(of_nat x :: byte) = of_nat y"
    then have "x < 256" "y < 256" by simp_all
    from e have "unat (of_nat x :: byte) = unat (of_nat y :: byte)" by simp
    with \<open>x < 256\<close> \<open>y < 256\<close> show "x = y" by (simp add: unat_of_nat)
  qed
  then show ?thesis by (simp add: ascii_codes_def distinct_map)
qed

text \<open>A loop that rewrites one cell per round.\<close>

lemma fold_cell_update:
  assumes "distinct as"
  shows "fold (\<lambda>a f. f(a := h a (f a))) as f = (\<lambda>a. if a \<in> set as then h a (f a) else f a)"
  using assms
proof (induction as arbitrary: f)
  case Nil
  then show ?case by simp
next
  case (Cons a as)
  then show ?case by (auto simp: fun_eq_iff)
qed

lemma fold_filter_skip:
  "fold (\<lambda>x s. if P x then F x s else s) xs s = fold F (filter P xs) s"
  by (induction xs arbitrary: s) auto


subsection \<open>The goto table holds state ids\<close>

lemma goto_ok_first:
  "state_count c = 0 \<Longrightarrow> goto_ok (snd (SCPFACInitNewState c))"
  by (simp add: goto_ok_def SCPFACInitNewState_def)

lemma goto_ok_child:
  assumes "goto_ok c"
  shows "goto_ok ((snd (SCPFACInitNewState c))
           \<lparr>goto_table := (goto_table (snd (SCPFACInitNewState c)))
              (s := (goto_table (snd (SCPFACInitNewState c)) s)(a := fst (SCPFACInitNewState c)))\<rparr>)"
  using assms
  by (auto simp: goto_ok_def SCPFACInitNewState_def) (smt (verit))+

lemma state_count_set_output [simp]:
  "state_count (SCPFACSetOutputState s pid c) = state_count c"
  "goto_table (SCPFACSetOutputState s pid c) = goto_table c"
  "pid_pat_list (SCPFACSetOutputState s pid c) = pid_pat_list c"
  by (simp_all add: SCPFACSetOutputState_def)

lemma goto_ok_set_output: "goto_ok c \<Longrightarrow> goto_ok (SCPFACSetOutputState s pid c)"
  by (simp add: goto_ok_def)

lemma goto_ok_extend: "goto_ok c \<Longrightarrow> goto_ok (snd (enter_extend c s bs))"
proof (induction bs arbitrary: c s)
  case Nil
  then show ?case by simp
next
  case (Cons b bs)
  show ?case
    using Cons.IH [OF goto_ok_child [OF Cons.prems, of s b]]
    by (simp add: split_def Let_def)
qed

lemma goto_ok_enter: "goto_ok c \<Longrightarrow> goto_ok (SCPFACEnter pat pid c)"
  by (simp add: SCPFACEnter_def split_def Let_def goto_ok_set_output goto_ok_extend)

lemma goto_ok_fold_enter:
  "goto_ok c \<Longrightarrow> goto_ok (fold (\<lambda>p. SCPFACEnter (take (len p) (ci p)) (id' p)) ps c)"
  by (induction ps arbitrary: c) (simp_all add: goto_ok_enter)

lemma goto_ok_level1: "goto_ok c \<Longrightarrow> goto_ok (SCPFACDetermineLevel1Gap cnt c)"
proof -
  have "goto_ok c \<Longrightarrow> goto_ok (fold (\<lambda>u c'. if \<not> m u then c'
                       else (let (newstate, c1) = SCPFACInitNewState c'
                             in c1\<lparr>goto_table :=
                                     (goto_table c1)(0 := (goto_table c1 0)(u := newstate))\<rparr>)) as c)"
    for m as
  proof (induction as arbitrary: c)
    case Nil
    then show ?case by simp
  next
    case (Cons a as)
    show ?case
    proof (cases "m a")
      case True
      then show ?thesis
        using Cons.IH [OF goto_ok_child [OF Cons.prems, of 0 a]]
        by (simp add: split_def Let_def)
    next
      case False
      then show ?thesis using Cons by simp
    qed
  qed
  then show "goto_ok c \<Longrightarrow> goto_ok (SCPFACDetermineLevel1Gap cnt c)"
    by (simp add: SCPFACDetermineLevel1Gap_def Let_def)
qed

text \<open>The loop over row 0 at the end of \<^verbatim>\<open>SCPFACCreateGotoTable\<close>.\<close>

lemma root_loop_eq:
  "fold (\<lambda>a c'. if goto_table c' 0 a = SC_PFAC_FAIL
                 then c'\<lparr>goto_table := (goto_table c')(0 := (goto_table c' 0)(a := 0))\<rparr>
                 else c') as c
   = c\<lparr>goto_table := (goto_table c)(0 := (\<lambda>a. if a \<in> set as \<and> goto_table c 0 a = SC_PFAC_FAIL
                                              then 0 else goto_table c 0 a))\<rparr>"
proof (induction as arbitrary: c)
  case Nil
  then show ?case by simp
next
  case (Cons a as)
  show ?case
    by (simp add: Cons.IH) (auto simp: fun_eq_iff SC_PFAC_FAIL_def intro!: arg_cong2 [where f = "\<lambda>g c. c\<lparr>goto_table := g\<rparr>"])
qed


lemma create_goto_table_eq:
  "SCPFACCreateGotoTable cnt c =
     (let c1 = fold (\<lambda>p. SCPFACEnter (take (len p) (ci p)) (id' p)) (take cnt (parray c)) c
      in c1\<lparr>goto_table := (goto_table c1)(0 := (\<lambda>a. if goto_table c1 0 a = SC_PFAC_FAIL
                                                    then 0 else goto_table c1 0 a))\<rparr>)"
  by (simp add: SCPFACCreateGotoTable_def Let_def root_loop_eq set_ascii_codes)

lemma goto_ok_create: "goto_ok c \<Longrightarrow> goto_ok (SCPFACCreateGotoTable cnt c)"
proof -
  assume "goto_ok c"
  then have "goto_ok (fold (\<lambda>p. SCPFACEnter (take (len p) (ci p)) (id' p)) (take cnt (parray c)) c)"
    by (rule goto_ok_fold_enter)
  then show ?thesis
    unfolding create_goto_table_eq Let_def goto_ok_def
    by (auto simp: SC_PFAC_FAIL_def)
qed

lemma root_no_fail: "goto_table (SCPFACCreateGotoTable cnt c) 0 a \<noteq> SC_PFAC_FAIL"
  by (simp add: create_goto_table_eq Let_def SC_PFAC_FAIL_def)

subsection \<open>The queue holds state ids\<close>

lemma enqueue_ok:
  "SCPFACEnqueue q s = Inr q' \<Longrightarrow> queue_ok n q \<Longrightarrow> 0 \<le> s \<Longrightarrow> s < n \<Longrightarrow> queue_ok n q'"
  by (auto simp: SCPFACEnqueue_def queue_ok_def Let_def split: if_splits)

lemma dequeue_ok:
  "SCPFACDequeue q = Inr rq \<Longrightarrow> queue_ok n q
   \<Longrightarrow> queue_ok n (snd rq) \<and> 0 \<le> fst rq \<and> fst rq < n"
  by (auto simp: SCPFACDequeue_def queue_ok_def Let_def split: if_splits)

lemma queue_ok_empty: "1 \<le> n \<Longrightarrow> queue_ok n empty_queue"
  by (simp add: queue_ok_def empty_queue_def)

subsection \<open>The delta table holds state ids\<close>

lemma cells_ok_zero: "1 \<le> n \<Longrightarrow> cells_ok n (\<lambda>_ _. 0)"
  unfolding cells_ok_def by (intro allI exI [of _ 0]) simp

lemma cells_ok_upd:
  "cells_ok n t \<Longrightarrow> 0 \<le> v \<Longrightarrow> v < n \<Longrightarrow> cells_ok n (t(s := (t s)(a := word_of_int v)))"
  unfolding cells_ok_def by (auto simp: fun_upd_def)

lemma fail_zero_upd:
  "fail_zero g t \<Longrightarrow> g s a \<noteq> SC_PFAC_FAIL \<Longrightarrow> fail_zero g (t(s := (t s)(a := w)))"
  unfolding fail_zero_def by (auto simp: fun_upd_def)

lemma uint_narrowed_state:
  "0 \<le> v \<Longrightarrow> v < n \<Longrightarrow> 0 \<le> uint (word_of_int v :: 'a::len word) \<and> uint (word_of_int v :: 'a word) < n"
proof -
  assume "0 \<le> v" "v < n"
  have "uint (word_of_int v :: 'a word) = v mod 2 ^ LENGTH('a)" by (rule uint_word_of_int)
  also have "\<dots> \<le> v" using \<open>0 \<le> v\<close> by (simp add: zmod_le_nonneg_dividend)
  finally show ?thesis using \<open>v < n\<close> by simp
qed

lemma delta_root_inv:
  fixes t :: "'a::len state_table"
  assumes "delta_root g as qt = Inr qt'"
    and "\<forall>a. 0 \<le> g 0 a \<and> g 0 a < n"
    and "queue_ok n (fst qt)" and "cells_ok n (snd qt)" and "fail_zero g (snd qt)"
  shows "queue_ok n (fst qt') \<and> cells_ok n (snd qt' :: 'a state_table) \<and> fail_zero g (snd qt')"
  using assms
proof (induction as arbitrary: qt)
  case Nil
  then show ?case by simp
next
  case (Cons a as)
  have v: "0 \<le> g 0 a" "g 0 a < n" using Cons.prems(2) by auto
  then have nf: "g 0 a \<noteq> SC_PFAC_FAIL" by (simp add: SC_PFAC_FAIL_def)
  let ?t1 = "(snd qt)(0 := (snd qt 0)(a := (word_of_int (g 0 a) :: 'a word)))"
  have c1: "cells_ok n ?t1" using Cons.prems(4) v by (rule cells_ok_upd)
  have f1: "fail_zero g ?t1" using Cons.prems(5) nf by (rule fail_zero_upd)
  show ?case
  proof (cases "(word_of_int (g 0 a) :: 'a word) \<noteq> 0")
    case True
    with Cons.prems(1) obtain q1 where
      e: "SCPFACEnqueue (fst qt) (uint (word_of_int (g 0 a) :: 'a word)) = Inr q1"
      and r: "delta_root g as (q1, ?t1) = Inr qt'"
      by (auto simp: Let_def split: sum.splits)
    have "queue_ok n q1"
      using enqueue_ok [OF e Cons.prems(3)] uint_narrowed_state [OF v] by simp
    then have "queue_ok n (fst (q1, ?t1))" "cells_ok n (snd (q1, ?t1))"
      "fail_zero g (snd (q1, ?t1))"
      using c1 f1 by simp_all
    then show ?thesis
      by (rule Cons.IH [OF r Cons.prems(2)])
  next
    case False
    with Cons.prems(1) have r: "delta_root g as (fst qt, ?t1) = Inr qt'"
      by (auto simp: Let_def)
    have "queue_ok n (fst (fst qt, ?t1))" "cells_ok n (snd (fst qt, ?t1))"
      "fail_zero g (snd (fst qt, ?t1))"
      using Cons.prems(3) c1 f1 by simp_all
    then show ?thesis
      by (rule Cons.IH [OF r Cons.prems(2)])
  qed
qed

lemma delta_row_inv:
  fixes t :: "'a::len state_table"
  assumes "delta_row g r as qt = Inr qt'"
    and "\<forall>a. g r a = SC_PFAC_FAIL \<or> (0 \<le> g r a \<and> g r a < n)"
    and "queue_ok n (fst qt)" and "cells_ok n (snd qt)" and "fail_zero g (snd qt)"
  shows "queue_ok n (fst qt') \<and> cells_ok n (snd qt' :: 'a state_table) \<and> fail_zero g (snd qt')"
  using assms
proof (induction as arbitrary: qt)
  case Nil
  then show ?case by simp
next
  case (Cons a as)
  show ?case
  proof (cases "g r a \<noteq> SC_PFAC_FAIL")
    case True
    then have v: "0 \<le> g r a" "g r a < n" using Cons.prems(2) by auto
    let ?t1 = "(snd qt)(r := (snd qt r)(a := (word_of_int (g r a) :: 'a word)))"
    have c1: "cells_ok n ?t1" using Cons.prems(4) v by (rule cells_ok_upd)
    have f1: "fail_zero g ?t1" using Cons.prems(5) True by (rule fail_zero_upd)
    from True Cons.prems(1) obtain q1 where
      e: "SCPFACEnqueue (fst qt) (g r a) = Inr q1"
      and rr: "delta_row g r as (q1, ?t1) = Inr qt'"
      by (auto simp: Let_def split: sum.splits)
    have "queue_ok n q1"
      using enqueue_ok [OF e Cons.prems(3)] v by simp
    then have "queue_ok n (fst (q1, ?t1))" "cells_ok n (snd (q1, ?t1))"
      "fail_zero g (snd (q1, ?t1))"
      using c1 f1 by simp_all
    then show ?thesis
      by (rule Cons.IH [OF rr Cons.prems(2)])
  next
    case False
    with Cons.prems(1) have rr: "delta_row g r as qt = Inr qt'"
      by (auto simp: Let_def)
    show ?thesis
      using Cons.IH [OF rr Cons.prems(2-5)] .
  qed
qed



lemma delta_bfs_inv_aux:
  fixes y :: "pfac_error + 'a::len state_table"
  assumes "delta_bfs g qt = Some y"
  shows "(\<forall>r a. 0 \<le> r \<and> r < n \<longrightarrow> g r a = SC_PFAC_FAIL \<or> (0 \<le> g r a \<and> g r a < n))
   \<longrightarrow> queue_ok n (fst qt) \<longrightarrow> cells_ok n (snd qt) \<longrightarrow> fail_zero g (snd qt)
   \<longrightarrow> (\<forall>t'. y = Inr t' \<longrightarrow> cells_ok n t' \<and> fail_zero g t')"
proof (rule delta_bfs.raw_induct [where P = "\<lambda>g qt y.
    (\<forall>r a. 0 \<le> r \<and> r < n \<longrightarrow> g r a = SC_PFAC_FAIL \<or> (0 \<le> g r a \<and> g r a < n))
   \<longrightarrow> queue_ok n (fst qt) \<longrightarrow> cells_ok n (snd qt) \<longrightarrow> fail_zero g (snd qt)
   \<longrightarrow> (\<forall>t'. y = Inr t' \<longrightarrow> cells_ok n t' \<and> fail_zero g t')", OF _ assms])
  fix bfs :: "(int \<Rightarrow> byte \<Rightarrow> int) \<Rightarrow> StateQueue \<times> 'a state_table \<Rightarrow> (pfac_error + 'a state_table) option"
  fix g qt and y :: "pfac_error + 'a state_table"
  assume IH: "\<And>g qt y. bfs g qt = Some y \<Longrightarrow>
    (\<forall>r a. 0 \<le> r \<and> r < n \<longrightarrow> g r a = SC_PFAC_FAIL \<or> (0 \<le> g r a \<and> g r a < n))
   \<longrightarrow> queue_ok n (fst qt) \<longrightarrow> cells_ok n (snd qt) \<longrightarrow> fail_zero g (snd qt)
   \<longrightarrow> (\<forall>t'. y = Inr t' \<longrightarrow> cells_ok n t' \<and> fail_zero g t')"
  assume step: "(if SCPFACStateQueueIsEmpty (fst qt) then Some (Inr (snd qt))
      else (case SCPFACDequeue (fst qt) of
              Inl e \<Rightarrow> Some (Inl e)
            | Inr rq \<Rightarrow>
                (case delta_row g (fst rq) ascii_codes (snd rq, snd qt) of
                   Inl e \<Rightarrow> Some (Inl e)
                 | Inr qt' \<Rightarrow> bfs g qt'))) = Some y"
  show "(\<forall>r a. 0 \<le> r \<and> r < n \<longrightarrow> g r a = SC_PFAC_FAIL \<or> (0 \<le> g r a \<and> g r a < n))
   \<longrightarrow> queue_ok n (fst qt) \<longrightarrow> cells_ok n (snd qt) \<longrightarrow> fail_zero g (snd qt)
   \<longrightarrow> (\<forall>t'. y = Inr t' \<longrightarrow> cells_ok n t' \<and> fail_zero g t')"
  proof (intro impI allI)
    fix t'
    assume rows: "\<forall>r a. 0 \<le> r \<and> r < n \<longrightarrow> g r a = SC_PFAC_FAIL \<or> (0 \<le> g r a \<and> g r a < n)"
      and q0: "queue_ok n (fst qt)" and c0: "cells_ok n (snd qt)" and f0: "fail_zero g (snd qt)"
      and y: "y = Inr t'"
    show "cells_ok n t' \<and> fail_zero g t'"
    proof (cases "SCPFACStateQueueIsEmpty (fst qt)")
      case True
      with step y have "t' = snd qt" by simp
      with c0 f0 show ?thesis by simp
    next
      case False
      with step have h:
        "(case SCPFACDequeue (fst qt) of
            Inl e \<Rightarrow> Some (Inl e)
          | Inr rq \<Rightarrow>
              (case delta_row g (fst rq) ascii_codes (snd rq, snd qt) of
                 Inl e \<Rightarrow> Some (Inl e)
               | Inr qt' \<Rightarrow> bfs g qt')) = Some y"
        by simp
      then obtain rq where d: "SCPFACDequeue (fst qt) = Inr rq"
        using y by (cases "SCPFACDequeue (fst qt)") simp_all
      with h y obtain qt1 where
        r: "delta_row g (fst rq) ascii_codes (snd rq, snd qt) = Inr qt1"
        by (cases "delta_row g (fst rq) ascii_codes (snd rq, snd qt)") simp_all
      with h d have b: "bfs g qt1 = Some y" by simp
      from dequeue_ok [OF d q0]
      have q: "queue_ok n (snd rq)" and rg: "0 \<le> fst rq" "fst rq < n" by simp_all
      have row: "\<forall>a. g (fst rq) a = SC_PFAC_FAIL \<or> (0 \<le> g (fst rq) a \<and> g (fst rq) a < n)"
        using rows rg by blast
      have "queue_ok n (fst (snd rq, snd qt))" "cells_ok n (snd (snd rq, snd qt))"
        "fail_zero g (snd (snd rq, snd qt))"
        using q c0 f0 by simp_all
      from delta_row_inv [OF r row this]
      have "queue_ok n (fst qt1)" "cells_ok n (snd qt1)" "fail_zero g (snd qt1)" by simp_all
      with IH [OF b] rows y show ?thesis by blast
    qed
  qed
qed


lemma delta_table_inv:
  fixes t :: "'a::len state_table"
  assumes "delta_table g = Some (Inr t)" and "1 \<le> n"
    and "\<forall>r a. 0 \<le> r \<and> r < n \<longrightarrow> g r a = SC_PFAC_FAIL \<or> (0 \<le> g r a \<and> g r a < n)"
    and "\<forall>a. g 0 a \<noteq> SC_PFAC_FAIL"
  shows "cells_ok n t \<and> fail_zero g t"
proof -
  from assms(1) obtain qt where
    r: "delta_root g ascii_codes (empty_queue, (\<lambda>_ _. 0 :: 'a word)) = Inr qt"
    and b: "delta_bfs g qt = Some (Inr t)"
    by (cases "delta_root g ascii_codes (empty_queue, (\<lambda>_ _. 0 :: 'a word))")
       (simp_all add: delta_table_def)
  have root: "\<forall>a. 0 \<le> g 0 a \<and> g 0 a < n"
  proof
    fix a
    have "(0::int) \<le> 0 \<and> 0 < n" using assms(2) by simp
    with assms(3) have "g 0 a = SC_PFAC_FAIL \<or> (0 \<le> g 0 a \<and> g 0 a < n)" by blast
    with assms(4) show "0 \<le> g 0 a \<and> g 0 a < n" by simp
  qed
  have "queue_ok n (fst (empty_queue, (\<lambda>_ _. 0 :: 'a word)))"
    "cells_ok n (snd (empty_queue, (\<lambda>_ _. 0 :: 'a word)))"
    "fail_zero g (snd (empty_queue, (\<lambda>_ _. 0 :: 'a word)))"
    using assms(2) by (simp_all add: queue_ok_empty cells_ok_zero fail_zero_def)
  from delta_root_inv [OF r root this]
  have "queue_ok n (fst qt)" "cells_ok n (snd qt)" "fail_zero g (snd qt)" by simp_all
  with delta_bfs_inv_aux [OF b, of n] assms(3) show ?thesis by blast
qed

subsection \<open>The presence bits, cell by cell\<close>

lemma presence_row:
  assumes "distinct as"
  shows "fold (\<lambda>a t'. (let temp_state = uint (t' r a)
                        in if out (temp_state AND m) \<noteq> []
                           then t'(r := (t' r)(a := t' r a OR hi))
                           else t')) as t
         = t(r := (\<lambda>a. if a \<in> set as \<and> out (uint (t r a) AND m) \<noteq> [] then t r a OR hi else t r a))"
  using assms
proof (induction as arbitrary: t)
  case Nil
  then show ?case by simp
next
  case (Cons a as)
  then show ?case by (auto simp: Let_def fun_eq_iff)
qed

lemma presence_rows:
  assumes "distinct ss" and "\<forall>s \<in> set ss. s AND m = s"
  shows "fold (\<lambda>state t.
             t((state AND m) := (\<lambda>a. if out (uint (t (state AND m) a) AND m) \<noteq> []
                                      then t (state AND m) a OR hi else t (state AND m) a))) ss tbl
         = (\<lambda>s a. if s \<in> set ss \<and> out (uint (tbl s a) AND m) \<noteq> [] then tbl s a OR hi else tbl s a)"
  using assms
proof (induction ss arbitrary: tbl)
  case Nil
  then show ?case by simp
next
  case (Cons s ss)
  have sm: "s AND m = s" using Cons.prems(2) by simp
  have rest: "distinct ss" "\<forall>s \<in> set ss. s AND m = s" "s \<notin> set ss"
    using Cons.prems by simp_all
  let ?F = "\<lambda>state t.
             t((state AND m) := (\<lambda>a. if out (uint (t (state AND m) a) AND m) \<noteq> []
                                      then t (state AND m) a OR hi else t (state AND m) a))"
  let ?t1 = "tbl(s := (\<lambda>a. if out (uint (tbl s a) AND m) \<noteq> [] then tbl s a OR hi else tbl s a))"
  have "fold ?F (s # ss) tbl = fold ?F ss ?t1" by (simp only: fold_Cons o_apply sm)
  also have "\<dots> = (\<lambda>s' a. if s' \<in> set ss \<and> out (uint (?t1 s' a) AND m) \<noteq> []
                          then ?t1 s' a OR hi else ?t1 s' a)"
    by (rule Cons.IH [OF rest(1,2)])
  also have "\<dots> = (\<lambda>s' a. if s' \<in> set (s # ss) \<and> out (uint (tbl s' a) AND m) \<noteq> []
                          then tbl s' a OR hi else tbl s' a)"
    using rest(3) by (auto simp: fun_eq_iff)
  finally show ?case .
qed

lemma club_presence_eq:
  assumes "\<forall>s. 0 \<le> s \<and> s < cnt \<longrightarrow> s AND m = s"
  shows "club_presence m hi out cnt tbl
         = (\<lambda>s a. if 0 \<le> s \<and> s < cnt \<and> out (uint (tbl s a) AND m) \<noteq> []
                   then tbl s a OR hi else tbl s a)"
proof -
  have d: "distinct [0..cnt - 1]" by simp
  have a: "\<forall>s \<in> set [0..cnt - 1]. s AND m = s" using assms by auto
  have "club_presence m hi out cnt tbl
        = fold (\<lambda>state t.
             t((state AND m) := (\<lambda>a. if out (uint (t (state AND m) a) AND m) \<noteq> []
                                      then t (state AND m) a OR hi else t (state AND m) a)))
            [0..cnt - 1] tbl"
    unfolding club_presence_def presence_row [OF distinct_ascii_codes] set_ascii_codes
    by simp
  also have "\<dots> = (\<lambda>s a. if s \<in> set [0..cnt - 1] \<and> out (uint (tbl s a) AND m) \<noteq> []
                         then tbl s a OR hi else tbl s a)"
    by (rule presence_rows [OF d a])
  also have "\<dots> = (\<lambda>s a. if 0 \<le> s \<and> s < cnt \<and> out (uint (tbl s a) AND m) \<noteq> []
                   then tbl s a OR hi else tbl s a)"
    by (auto simp: fun_eq_iff)
  finally show ?thesis .
qed

subsection \<open>The verify bits, entry by entry\<close>

lemma insert_cs_fold:
  assumes "distinct ss"
  shows "fold (\<lambda>state c'.
             c'\<lparr>output_table := (output_table c')(state :=
                  map (\<lambda>pid. if pl_cs (pid_pat_list c' (unat pid)) \<noteq> None
                              then (pid AND 0x0000FFFF) OR push_bit 16 1 else pid)
                      (output_table c' state))\<rparr>) ss c
         = c\<lparr>output_table := (\<lambda>s. if s \<in> set ss
                   then map (\<lambda>pid. if pl_cs (pid_pat_list c (unat pid)) \<noteq> None
                              then (pid AND 0x0000FFFF) OR push_bit 16 1 else pid)
                      (output_table c s)
                   else output_table c s)\<rparr>"
  using assms
proof (induction ss arbitrary: c)
  case Nil
  then show ?case by simp
next
  case (Cons s ss)
  let ?F = "\<lambda>state c'.
             c'\<lparr>output_table := (output_table c')(state :=
                  map (\<lambda>pid. if pl_cs (pid_pat_list c' (unat pid)) \<noteq> None
                              then (pid AND 0x0000FFFF) OR push_bit 16 1 else pid)
                      (output_table c' state))\<rparr>"
  let ?c1 = "?F s c"
  have d: "distinct ss" and n: "s \<notin> set ss" using Cons.prems by simp_all
  have "fold ?F (s # ss) c = fold ?F ss ?c1" by (simp only: fold_Cons o_apply)
  also have "\<dots> = ?c1\<lparr>output_table := (\<lambda>s'. if s' \<in> set ss
                   then map (\<lambda>pid. if pl_cs (pid_pat_list ?c1 (unat pid)) \<noteq> None
                              then (pid AND 0x0000FFFF) OR push_bit 16 1 else pid)
                      (output_table ?c1 s')
                   else output_table ?c1 s')\<rparr>"
    by (rule Cons.IH [OF d])
  also have "\<dots> = c\<lparr>output_table := (\<lambda>s'. if s' \<in> set (s # ss)
                   then map (\<lambda>pid. if pl_cs (pid_pat_list c (unat pid)) \<noteq> None
                              then (pid AND 0x0000FFFF) OR push_bit 16 1 else pid)
                      (output_table c s')
                   else output_table c s')\<rparr>"
    using n by (auto simp: fun_eq_iff intro!: arg_cong2 [where f = "\<lambda>g c. c\<lparr>output_table := g\<rparr>"])
  finally show ?case .
qed

lemma insert_cs_eq:
  "SCPFACInsertCaseSensitiveEntriesForPatterns c
   = c\<lparr>output_table := (\<lambda>s. if 0 \<le> s \<and> s < state_count c
                   then map (\<lambda>pid. if pl_cs (pid_pat_list c (unat pid)) \<noteq> None
                              then (pid AND 0x0000FFFF) OR push_bit 16 1 else pid)
                      (output_table c s)
                   else output_table c s)\<rparr>"
  unfolding SCPFACInsertCaseSensitiveEntriesForPatterns_def
  by (subst insert_cs_fold) (auto simp: fun_eq_iff intro!: arg_cong2 [where f = "\<lambda>g c. c\<lparr>output_table := g\<rparr>"])

subsection \<open>Decoding a cell\<close>

lemma or_bit_and_mask:
  fixes w :: "'a::len word"
  shows "(w OR 2 ^ k) AND mask k = w AND mask k"
proof (rule bit_eqI)
  fix n
  show "bit ((w OR 2 ^ k) AND mask k) n = bit (w AND mask k) n"
    unfolding bit_and_iff bit_or_iff bit_exp_iff bit_mask_iff by auto
qed

lemma or_bit_and_bit:
  fixes w :: "'a::len word"
  assumes "k < LENGTH('a)"
  shows "(w OR 2 ^ k) AND 2 ^ k \<noteq> 0"
proof -
  have "bit (w OR 2 ^ k) k"
    unfolding bit_or_iff bit_exp_iff using assms by simp
  then show ?thesis using assms by (simp add: and_exp_eq_0_iff_not_bit)
qed

lemma masked_and_bit:
  fixes w :: "'a::len word"
  assumes "w AND mask k = w"
  shows "w AND 2 ^ k = 0"
proof -
  have "bit w k = bit (w AND mask k) k" using assms by simp
  also have "\<dots> = False" unfolding bit_and_iff bit_mask_iff by simp
  finally show ?thesis by (simp add: and_exp_eq_0_iff_not_bit)
qed

lemma state_cell_facts:
  fixes k :: nat
  assumes "0 \<le> v" and "v < 2 ^ k" and "k < LENGTH('a::len)"
  shows "uint (word_of_int v :: 'a word) = v"
    and "(word_of_int v :: 'a word) AND mask k = word_of_int v"
    and "v AND mask k = v"
proof -
  have "(2::int) ^ k < 2 ^ LENGTH('a)" using assms(3) by simp
  with assms have lt: "v < 2 ^ LENGTH('a)" by linarith
  show u: "uint (word_of_int v :: 'a word) = v"
    using assms(1) lt by (simp add: uint_word_of_int)
  show "v AND mask k = v"
    using assms(1,2) by (simp add: take_bit_eq_mask [symmetric] take_bit_int_eq_self)
  then show "(word_of_int v :: 'a word) AND mask k = word_of_int v"
    by (simp add: and_mask_wi take_bit_eq_mask)
qed


lemma decode_after_presence:
  fixes t :: "'a::len state_table"
  assumes c: "cells_ok n t" and nk: "n \<le> 2 ^ k" and kl: "k < LENGTH('a)"
    and s: "0 \<le> s" "s < n"
  shows "uint (club_presence (mask k) (2 ^ k) out n t s a AND mask k) < n
     \<and> (club_presence (mask k) (2 ^ k) out n t s a AND 2 ^ k \<noteq> 0
          \<longleftrightarrow> out (uint (club_presence (mask k) (2 ^ k) out n t s a AND mask k)) \<noteq> [])"
proof -
  have rows: "\<forall>s. 0 \<le> s \<and> s < n \<longrightarrow> s AND mask k = s"
    using nk kl state_cell_facts(3) [where ?'a = 'a] by (metis less_le_trans)
  from c obtain v where v: "0 \<le> v" "v < n" "t s a = word_of_int v"
    unfolding cells_ok_def by blast
  then have vk: "v < 2 ^ k" using nk by simp
  note f = state_cell_facts [OF v(1) vk kl]
  have cell: "club_presence (mask k) (2 ^ k) out n t s a
              = (if out v \<noteq> [] then t s a OR 2 ^ k else t s a)"
    unfolding club_presence_eq [OF rows] using s v(3) f by simp
  show ?thesis
  proof (cases "out v \<noteq> []")
    case True
    then show ?thesis
      unfolding cell using v f kl by (simp add: or_bit_and_mask or_bit_and_bit)
  next
    case False
    then show ?thesis
      unfolding cell using v f by (simp add: masked_and_bit)
  qed
qed

lemma create_delta_u16_props:
  assumes "create_delta_u16 both c = Some (Inr c')" and "goto_ok c"
    and "\<forall>a. goto_table c 0 a \<noteq> SC_PFAC_FAIL"
  shows "\<exists>T. c' = c\<lparr>state_table_u16 := T\<rparr>
           \<and> (state_count c < 32767 \<or> both
                \<longrightarrow> (\<exists>t. T = Some t \<and> cells_ok (state_count c) t \<and> fail_zero (goto_table c) t))"
proof (cases "state_count c < 32767 \<or> both")
  case True
  with assms(1) obtain t where
    d: "delta_table (goto_table c) = Some (Inr (t :: 16 state_table))"
    and c': "c' = c\<lparr>state_table_u16 := Some t\<rparr>"
    by (auto simp: create_delta_u16_def split: option.splits sum.splits)
  have "cells_ok (state_count c) t \<and> fail_zero (goto_table c) t"
    using delta_table_inv [OF d, of "state_count c"] assms(2,3) by (simp add: goto_ok_def)
  with c' True show ?thesis by blast
next
  case False
  with assms(1) have "c' = c\<lparr>state_table_u16 := state_table_u16 c\<rparr>"
    by (simp add: create_delta_u16_def)
  with False show ?thesis by blast
qed

lemma create_delta_u32_props:
  assumes "create_delta_u32 both c = Some (Inr c')" and "goto_ok c"
    and "\<forall>a. goto_table c 0 a \<noteq> SC_PFAC_FAIL"
  shows "\<exists>T. c' = c\<lparr>state_table_u32 := T\<rparr>
           \<and> (\<not> state_count c < 32767 \<or> both
                \<longrightarrow> (\<exists>t. T = Some t \<and> cells_ok (state_count c) t \<and> fail_zero (goto_table c) t))"
proof (cases "\<not> state_count c < 32767 \<or> both")
  case True
  with assms(1) obtain t where
    d: "delta_table (goto_table c) = Some (Inr (t :: 32 state_table))"
    and c': "c' = c\<lparr>state_table_u32 := Some t\<rparr>"
    by (auto simp: create_delta_u32_def split: option.splits sum.splits)
  have "cells_ok (state_count c) t \<and> fail_zero (goto_table c) t"
    using delta_table_inv [OF d, of "state_count c"] assms(2,3) by (simp add: goto_ok_def)
  with c' True show ?thesis by blast
next
  case False
  with assms(1) have "c' = c\<lparr>state_table_u32 := state_table_u32 c\<rparr>"
    by (simp add: create_delta_u32_def)
  with False show ?thesis by blast
qed

lemma create_delta_table_props:
  assumes "SCPFACCreateDeltaTable both c = Some (Inr c')" and "goto_ok c"
    and "\<forall>a. goto_table c 0 a \<noteq> SC_PFAC_FAIL"
  shows "\<exists>T16 T32. c' = c\<lparr>state_table_u16 := T16, state_table_u32 := T32\<rparr>
           \<and> (state_count c < 32767 \<or> both
                \<longrightarrow> (\<exists>t. T16 = Some t \<and> cells_ok (state_count c) t \<and> fail_zero (goto_table c) t))
           \<and> (\<not> state_count c < 32767 \<or> both
                \<longrightarrow> (\<exists>t. T32 = Some t \<and> cells_ok (state_count c) t \<and> fail_zero (goto_table c) t))"
proof -
  from assms(1) obtain c1 where
    a: "create_delta_u16 both c = Some (Inr c1)" and b: "create_delta_u32 both c1 = Some (Inr c')"
    by (auto simp: SCPFACCreateDeltaTable_def split: option.splits sum.splits)
  from create_delta_u16_props [OF a assms(2,3)] obtain T16 where
    c1: "c1 = c\<lparr>state_table_u16 := T16\<rparr>"
    and t16: "state_count c < 32767 \<or> both
                \<longrightarrow> (\<exists>t. T16 = Some t \<and> cells_ok (state_count c) t \<and> fail_zero (goto_table c) t)"
    by blast
  have g1: "goto_ok c1" "\<forall>a. goto_table c1 0 a \<noteq> SC_PFAC_FAIL"
    using assms(2,3) c1 by (simp_all add: goto_ok_def)
  from create_delta_u32_props [OF b g1] obtain T32 where
    c': "c' = c1\<lparr>state_table_u32 := T32\<rparr>"
    and t32: "\<not> state_count c1 < 32767 \<or> both
                \<longrightarrow> (\<exists>t. T32 = Some t \<and> cells_ok (state_count c1) t \<and> fail_zero (goto_table c1) t)"
    by blast
  show ?thesis
    using c1 c' t16 t32 by (intro exI [of _ T16] exI [of _ T32]) simp
qed


lemma presence_u16_fields:
  assumes "presence_u16 both c = Inr c'"
  shows "state_count c' = state_count c" "output_table c' = output_table c"
    "pid_pat_list c' = pid_pat_list c" "state_table_u32 c' = state_table_u32 c"
    "goto_table c' = goto_table c"
    "state_table_u16 c' =
       (if (state_count c < 32767 \<or> both) \<and> 0 < state_count c
        then map_option (club_presence 0x7FFF (push_bit 15 1) (output_table c) (state_count c))
               (state_table_u16 c)
        else state_table_u16 c)"
  using assms by (auto simp: presence_u16_def split: if_splits option.splits)

lemma presence_u32_fields:
  assumes "presence_u32 both c = Inr c'"
  shows "state_count c' = state_count c" "output_table c' = output_table c"
    "pid_pat_list c' = pid_pat_list c" "state_table_u16 c' = state_table_u16 c"
    "goto_table c' = goto_table c"
    "state_table_u32 c' =
       (if (\<not> state_count c < 32767 \<or> both) \<and> 0 < state_count c
        then map_option (club_presence 0x00FFFFFF (push_bit 24 1) (output_table c) (state_count c))
               (state_table_u32 c)
        else state_table_u32 c)"
  using assms by (auto simp: presence_u32_def split: if_splits option.splits)

lemma insert_cs_fields:
  "state_count (SCPFACInsertCaseSensitiveEntriesForPatterns c) = state_count c"
  "state_table_u16 (SCPFACInsertCaseSensitiveEntriesForPatterns c) = state_table_u16 c"
  "state_table_u32 (SCPFACInsertCaseSensitiveEntriesForPatterns c) = state_table_u32 c"
  "pid_pat_list (SCPFACInsertCaseSensitiveEntriesForPatterns c) = pid_pat_list c"
  "output_table (SCPFACInsertCaseSensitiveEntriesForPatterns c) s \<noteq> [] \<longleftrightarrow> output_table c s \<noteq> []"
  by (simp_all add: insert_cs_eq)

text \<open>What the tables of a prepared context look like.\<close>

lemma prepare_state_table_shape:
  fixes c3 c :: SCPFACCtx and cnt :: nat
  defines "c3 \<equiv> SCPFACCreateGotoTable cnt (SCPFACDetermineLevel1Gap cnt (snd (SCPFACInitNewState c)))"
  assumes "SCPFACPrepareStateTable both cnt c = Some (Inr cf)" and "state_count c = 0"
  shows "goto_ok c3"
    and "state_count cf = state_count c3"
    and "\<forall>s. output_table cf s \<noteq> [] \<longleftrightarrow> output_table c3 s \<noteq> []"
    and "state_count c3 < 32767 \<or> both
         \<longrightarrow> (\<exists>t. cells_ok (state_count c3) t \<and> fail_zero (goto_table c3) t
                \<and> state_table_u16 cf
                    = Some (club_presence 0x7FFF (push_bit 15 1) (output_table c3) (state_count c3) t))"
    and "\<not> state_count c3 < 32767 \<or> both
         \<longrightarrow> (\<exists>t. cells_ok (state_count c3) t \<and> fail_zero (goto_table c3) t
                \<and> state_table_u32 cf
                    = Some (club_presence 0x00FFFFFF (push_bit 24 1) (output_table c3) (state_count c3) t))"
proof -
  show g3: "goto_ok c3"
    unfolding c3_def by (intro goto_ok_create goto_ok_level1 goto_ok_first assms(3))
  have r3: "\<forall>a. goto_table c3 0 a \<noteq> SC_PFAC_FAIL"
    unfolding c3_def by (simp add: root_no_fail)
  have n3: "0 < state_count c3" using g3 by (simp add: goto_ok_def)
  from assms(2) obtain c4 c5 where
    d: "SCPFACCreateDeltaTable both c3 = Some (Inr c4)"
    and p: "SCPFACClubOutputStatePresenceWithDeltaTable both c4 = Inr c5"
    and cf: "cf = (SCPFACInsertCaseSensitiveEntriesForPatterns c5)\<lparr>goto_table := (\<lambda>_ _. 0)\<rparr>"
    unfolding SCPFACPrepareStateTable_def Let_def c3_def [symmetric]
    by (auto split: option.splits sum.splits)
  from create_delta_table_props [OF d g3 r3] obtain T16 T32 where
    c4: "c4 = c3\<lparr>state_table_u16 := T16, state_table_u32 := T32\<rparr>"
    and t16: "state_count c3 < 32767 \<or> both
        \<longrightarrow> (\<exists>t. T16 = Some t \<and> cells_ok (state_count c3) t \<and> fail_zero (goto_table c3) t)"
    and t32: "\<not> state_count c3 < 32767 \<or> both
        \<longrightarrow> (\<exists>t. T32 = Some t \<and> cells_ok (state_count c3) t \<and> fail_zero (goto_table c3) t)"
    by blast
  from p obtain c4a where
    pa: "presence_u16 both c4 = Inr c4a" and pb: "presence_u32 both c4a = Inr c5"
    by (auto simp: SCPFACClubOutputStatePresenceWithDeltaTable_def split: sum.splits)
  note fa = presence_u16_fields [OF pa]
  note fb = presence_u32_fields [OF pb]
  show "state_count cf = state_count c3"
    by (simp add: cf insert_cs_fields fa fb c4)
  show "\<forall>s. output_table cf s \<noteq> [] \<longleftrightarrow> output_table c3 s \<noteq> []"
    by (simp add: cf insert_cs_fields fa fb c4)
  show "state_count c3 < 32767 \<or> both
         \<longrightarrow> (\<exists>t. cells_ok (state_count c3) t \<and> fail_zero (goto_table c3) t
                \<and> state_table_u16 cf
                    = Some (club_presence 0x7FFF (push_bit 15 1) (output_table c3) (state_count c3) t))"
    using t16 n3 by (auto simp: cf insert_cs_fields fa fb c4)
  show "\<not> state_count c3 < 32767 \<or> both
         \<longrightarrow> (\<exists>t. cells_ok (state_count c3) t \<and> fail_zero (goto_table c3) t
                \<and> state_table_u32 cf
                    = Some (club_presence 0x00FFFFFF (push_bit 24 1) (output_table c3) (state_count c3) t))"
    using t32 n3 by (auto simp: cf insert_cs_fields fa fb c4)
qed

lemma add_pattern_state_count:
  "state_count (ctx (snd (SCPFACAddPattern m pat offset depth pid sid fl))) = state_count (ctx m)"
  by (auto simp: SCPFACAddPattern_def SCPFACInitHashAdd_def Let_def split: option.splits)

lemma register_all_state_count: "state_count (ctx (register_all regs)) = 0"
proof -
  have "state_count (ctx (fold (\<lambda>r m. snd (SCPFACAddPattern m (fst r) 0 0 (fst (snd r)) 0 (snd (snd r)))) regs m))
        = state_count (ctx m)" for m
    by (induction regs arbitrary: m) (simp_all add: add_pattern_state_count)
  then show ?thesis by (simp add: register_all_def SCPFACInitCtx_def)
qed

lemma prepare_patterns_cases:
  assumes "SCPFACPreparePatterns both mpm = Some (Inr (r, m))"
  shows "m = mpm
       \<or> (\<exists>c c'. state_count c = state_count (ctx mpm)
               \<and> SCPFACPrepareStateTable both (pattern_cnt mpm) c = Some (Inr c')
               \<and> ctx m = c'\<lparr>parray := []\<rparr>)"
proof (cases "init_hash (ctx mpm)")
  case None
  with assms show ?thesis by (simp add: SCPFACPreparePatterns_def)
next
  case (Some h)
  show ?thesis
  proof (cases "pattern_cnt mpm = 0")
    case True
    with Some assms show ?thesis by (simp add: SCPFACPreparePatterns_def)
  next
    case False
    let ?c = "(ctx mpm)\<lparr>parray := collect_parray h, init_hash := None,
                          pid_pat_list := fill_pid_pat_list (collect_parray h)\<rparr>"
    from False Some assms obtain c' where
      "SCPFACPrepareStateTable both (pattern_cnt mpm) ?c = Some (Inr c')"
      and "m = mpm\<lparr>ctx := c'\<lparr>parray := []\<rparr>\<rparr>"
      by (auto simp: SCPFACPreparePatterns_def Let_def split: if_splits option.splits sum.splits)
    moreover have "state_count ?c = state_count (ctx mpm)" by simp
    ultimately show ?thesis by (intro disjI2 exI [of _ ?c] exI [of _ c']) simp
  qed
qed

lemma prepared_cells:
  assumes "SCPFACPreparePatterns both mpm = Some (Inr (r, m))" and "state_count (ctx mpm) = 0"
    and "0 \<le> s" and "s < state_count (ctx m)"
  shows "(state_count (ctx m) < 32767 \<longrightarrow>
           (\<exists>t. state_table_u16 (ctx m) = Some t
               \<and> uint (t s b AND 0x7FFF) < state_count (ctx m)
               \<and> (t s b AND 0x8000 \<noteq> 0
                    \<longleftrightarrow> output_table (ctx m) (uint (t s b AND 0x7FFF)) \<noteq> [])))
       \<and> (32767 \<le> state_count (ctx m) \<and> state_count (ctx m) \<le> 2 ^ 24 \<longrightarrow>
           (\<exists>t. state_table_u32 (ctx m) = Some t
               \<and> uint (t s b AND 0x00FFFFFF) < state_count (ctx m)
               \<and> (t s b AND 0x01000000 \<noteq> 0
                    \<longleftrightarrow> output_table (ctx m) (uint (t s b AND 0x00FFFFFF)) \<noteq> [])))"
proof -
  from prepare_patterns_cases [OF assms(1)] assms(2,3,4) obtain c c' where
    c0: "state_count c = 0"
    and p: "SCPFACPrepareStateTable both (pattern_cnt mpm) c = Some (Inr c')"
    and m: "ctx m = c'\<lparr>parray := []\<rparr>"
    by auto
  define c3 where "c3 = SCPFACCreateGotoTable (pattern_cnt mpm)
      (SCPFACDetermineLevel1Gap (pattern_cnt mpm) (snd (SCPFACInitNewState c)))"
  note sh = prepare_state_table_shape [OF p c0, folded c3_def]
  have sc: "state_count c' = state_count c3" by (rule sh(2))
  have out: "\<forall>s. output_table c' s \<noteq> [] \<longleftrightarrow> output_table c3 s \<noteq> []" by (rule sh(3))
  have u16: "state_count c3 < 32767 \<or> both
         \<longrightarrow> (\<exists>t. cells_ok (state_count c3) t
                \<and> state_table_u16 c'
                    = Some (club_presence 0x7FFF (push_bit 15 1) (output_table c3) (state_count c3) t))"
    using sh(4) by blast
  have u32: "\<not> state_count c3 < 32767 \<or> both
         \<longrightarrow> (\<exists>t. cells_ok (state_count c3) t
                \<and> state_table_u32 c'
                    = Some (club_presence 0x00FFFFFF (push_bit 24 1) (output_table c3) (state_count c3) t))"
    using sh(5) by blast
  let ?n = "state_count c3"
  have n: "state_count (ctx m) = ?n" using m sc by simp
  have s: "0 \<le> s" "s < ?n" using assms(3,4) n by simp_all
  have o: "output_table (ctx m) x \<noteq> [] \<longleftrightarrow> output_table c3 x \<noteq> []" for x
    using m out by simp
  have part16: "\<exists>t. state_table_u16 (ctx m) = Some t
               \<and> uint (t s b AND 0x7FFF) < ?n
               \<and> (t s b AND 0x8000 \<noteq> 0
                    \<longleftrightarrow> output_table (ctx m) (uint (t s b AND 0x7FFF)) \<noteq> [])"
    if lt: "?n < 32767"
  proof -
    from u16 lt obtain t where
      c: "cells_ok ?n t"
      and t: "state_table_u16 c'
                = Some (club_presence 0x7FFF (push_bit 15 1) (output_table c3) ?n t)"
      by blast
    have "?n \<le> 2 ^ 15" using lt by simp
    from decode_after_presence [OF c this _ s, of "output_table c3" b]
    have "uint (club_presence 0x7FFF (push_bit 15 1) (output_table c3) ?n t s b AND 0x7FFF) < ?n
       \<and> (club_presence 0x7FFF (push_bit 15 1) (output_table c3) ?n t s b AND 0x8000 \<noteq> 0
            \<longleftrightarrow> output_table c3
                  (uint (club_presence 0x7FFF (push_bit 15 1) (output_table c3) ?n t s b AND 0x7FFF))
                \<noteq> [])"
      by (simp add: mask_eq_exp_minus_1)
    with t m o show ?thesis by simp
  qed
  have part32: "\<exists>t. state_table_u32 (ctx m) = Some t
               \<and> uint (t s b AND 0x00FFFFFF) < ?n
               \<and> (t s b AND 0x01000000 \<noteq> 0
                    \<longleftrightarrow> output_table (ctx m) (uint (t s b AND 0x00FFFFFF)) \<noteq> [])"
    if ge: "32767 \<le> ?n" and le: "?n \<le> 2 ^ 24"
  proof -
    from u32 ge obtain t where
      c: "cells_ok ?n t"
      and t: "state_table_u32 c'
                = Some (club_presence 0x00FFFFFF (push_bit 24 1) (output_table c3) ?n t)"
      by auto
    from decode_after_presence [OF c le _ s, of "output_table c3" b]
    have "uint (club_presence 0x00FFFFFF (push_bit 24 1) (output_table c3) ?n t s b AND 0x00FFFFFF) < ?n
       \<and> (club_presence 0x00FFFFFF (push_bit 24 1) (output_table c3) ?n t s b AND 0x01000000 \<noteq> 0
            \<longleftrightarrow> output_table c3
                  (uint (club_presence 0x00FFFFFF (push_bit 24 1) (output_table c3) ?n t s b
                         AND 0x00FFFFFF))
                \<noteq> [])"
      by (simp add: mask_eq_exp_minus_1)
    with t m o show ?thesis by simp
  qed
  show ?thesis
    using part16 part32 n by simp
qed

end
